theory Spec2Isabelle
  imports Complex_Main "HOL-Library.AList" "HOL-Library.Multiset"
begin

section \<open>The BLEU scorer of waygo/bleu\<close>

text \<open>
  The development follows \<^verbatim>\<open>bleu.go\<close> function by function.

  \<^item> A \<^verbatim>\<open>Sentence\<close> is a slice of strings; it is a list of strings here, and a string is
    a list of bytes, any bytes.
  \<^item> Go's \<^verbatim>\<open>int\<close> is \<open>int\<close>: every integer of the program is a length or a
    count of elements of a slice, far from the 64-bit bounds.
  \<^item> \<^verbatim>\<open>float64\<close> is \<open>real\<close> with the values \<open>PosInf\<close>, \<open>NegInf\<close> and \<open>NaN\<close>
    beside it. Rounding is not modelled. What is written out is where the program leaves
    the finite numbers or loses a positive value: the division by the candidate length 0
    in \<^verbatim>\<open>brevityPenalty\<close>, and \<^verbatim>\<open>math.Exp\<close>, which returns exactly 0 below its underflow
    bound and the infinity above its overflow bound.
  \<^item> A runtime panic is a value: \<open>Inl IndexOutOfRange\<close>.
  \<^item> A \<^verbatim>\<open>map[string]int\<close> is an association list with distinct keys. The key of an
    n-gram is \<^verbatim>\<open>phrase.String\<close>, the JSON text of its tokens; two n-grams with the same
    JSON text are one key.
  \<^item> \<^verbatim>\<open>range\<close> over a map visits the entries in an order Go leaves open. The order
    is a parameter of the model: every \<^verbatim>\<open>range\<close> statement over a map asks it for the
    order of the visit.
  \<^item> The functions of the Go library that the program calls are not part of the
    repository. \<^verbatim>\<open>json.Marshal\<close> on a slice of strings, \<^verbatim>\<open>utf8.DecodeRuneInString\<close>,
    the ASCII path of \<^verbatim>\<open>strings.ToLower\<close> and the bounds of \<^verbatim>\<open>math.Exp\<close> are modelled
    from the library; the path of \<^verbatim>\<open>strings.ToLower\<close> through Go's Unicode tables is a
    parameter.
\<close>

subsection \<open>Data\<close>

type_synonym Sentence = "string list"

type_synonym phrase = "string list"

type_synonym counts = "(string \<times> int) list"

datatype fault = IndexOutOfRange

datatype float64 = Fin real | PosInf | NegInf | NaN

text \<open>
  \<open>ord j m\<close> is the order in which the \<open>j\<close>-th \<^verbatim>\<open>range\<close> statement of one call of
  \<^verbatim>\<open>modifiedPrecision\<close> visits the entries of the map \<open>m\<close>: 0 is the loop that clips
  the counts, 1 and 2 are the two calls of \<^verbatim>\<open>sum\<close>, and \<open>3 + i\<close> is the inner loop
  for the reference of index \<open>i\<close>. \<open>sched i\<close> is the \<open>ord\<close> of the call for the
  n-gram order \<open>i + 1\<close>. An order is admissible when it visits every entry once.
\<close>

type_synonym range_order = "nat \<Rightarrow> counts \<Rightarrow> counts"

definition valid_order :: "range_order \<Rightarrow> bool" where
  "valid_order ord \<longleftrightarrow> (\<forall>j m. mset (ord j m) = mset m)"

definition valid_sched :: "(nat \<Rightarrow> range_order) \<Rightarrow> bool" where
  "valid_sched sched \<longleftrightarrow> (\<forall>i. valid_order (sched i))"

definition insertion_order :: "range_order" where
  "insertion_order j m = m"

definition reverse_order :: "range_order" where
  "reverse_order j m = rev m"

subsection \<open>Library functions used by the program\<close>

text \<open>
  Modelled from the Go library: \<^verbatim>\<open>strings.ToLower\<close>. A string of ASCII bytes only takes
  the fast path: the bytes \<open>A\<close> to \<open>Z\<close> (65 to 90) move to \<open>a\<close> to \<open>z\<close>, every other
  byte stays. Any other string goes through \<^verbatim>\<open>strings.Map(unicode.ToLower, s)\<close>, which
  needs the case tables of Go's \<^verbatim>\<open>unicode\<close> package: that path is the parameter
  \<open>unicodeLower\<close>.
\<close>

definition toLowerByte :: "char \<Rightarrow> char" where
  "toLowerByte c = (let b = (of_char c :: nat) in if 65 \<le> b \<and> b \<le> 90 then char_of (b + 32) else c)"

definition isASCII :: "string \<Rightarrow> bool" where
  "isASCII s = list_all (\<lambda>c. (of_char c :: nat) < 0x80) s"

definition ToLower :: "(string \<Rightarrow> string) \<Rightarrow> string \<Rightarrow> string" where
  "ToLower unicodeLower s = (if isASCII s then map toLowerByte s else unicodeLower s)"

text \<open>
  Modelled from the Go library: \<^verbatim>\<open>utf8.DecodeRuneInString\<close>, as far as its size goes.
  The result is the number of bytes of the rune encoded at the head of the string, and 0
  where Go answers \<^verbatim>\<open>RuneError\<close> with size 1 (or size 0 on the empty string): a byte that
  starts no rune, a rune cut short, an overlong form, a surrogate, a value above
  \<^verbatim>\<open>U+10FFFF\<close>.
\<close>

definition between :: "nat \<Rightarrow> nat \<Rightarrow> char \<Rightarrow> bool" where
  "between lo hi c \<longleftrightarrow> lo \<le> of_char c \<and> (of_char c :: nat) \<le> hi"

fun decodeSize :: "string \<Rightarrow> nat" where
  "decodeSize [] = 0"
| "decodeSize (b0 # bs) =
     (let x = (of_char b0 :: nat) in
      if x < 0x80 then 1
      else if x < 0xC2 then 0
      else if x < 0xE0 then
        (case bs of
           b1 # _ \<Rightarrow> if between 0x80 0xBF b1 then 2 else 0
         | _ \<Rightarrow> 0)
      else if x < 0xF0 then
        (case bs of
           b1 # b2 # _ \<Rightarrow>
             if between (if x = 0xE0 then 0xA0 else 0x80) (if x = 0xED then 0x9F else 0xBF) b1
                \<and> between 0x80 0xBF b2
             then 3 else 0
         | _ \<Rightarrow> 0)
      else if x < 0xF5 then
        (case bs of
           b1 # b2 # b3 # _ \<Rightarrow>
             if between (if x = 0xF0 then 0x90 else 0x80) (if x = 0xF4 then 0x8F else 0xBF) b1
                \<and> between 0x80 0xBF b2 \<and> between 0x80 0xBF b3
             then 4 else 0
         | _ \<Rightarrow> 0)
      else 0)"

text \<open>
  Modelled from the Go library: \<^verbatim>\<open>json.Marshal\<close> on a slice of strings (package
  \<^verbatim>\<open>encoding/json\<close>, HTML escaping on). A string is written between double quotes.
  The quote and the backslash get a backslash in front; backspace, form feed, newline,
  carriage return and tab are a backslash and the letter \<open>b\<close>, \<open>f\<close>, \<open>n\<close>, \<open>r\<close>,
  \<open>t\<close>; the other bytes below 0x20 and the three bytes \<open><\<close>, \<open>>\<close>, \<open>&\<close> are a backslash
  and \<open>u00XX\<close> with the two hexadecimal digits of the byte; every byte that is not part
  of a valid UTF-8 rune is a backslash and \<open>ufffd\<close>; the runes \<open>U+2028\<close> and \<open>U+2029\<close>
  are a backslash and \<open>u2028\<close> or \<open>u2029\<close>; everything else is copied. (Before Go 1.22
  backspace and form feed were written with \<open>u0008\<close> and \<open>u000c\<close>; nothing below depends
  on the choice.) The slice is written between brackets, with commas.
\<close>

definition hexDigit :: "nat \<Rightarrow> char" where
  "hexDigit n = ''0123456789abcdef'' ! n"

definition escapeByte :: "char \<Rightarrow> string" where
  "escapeByte b =
     (if b = CHR 0x22 \<or> b = CHR 0x5C then [CHR 0x5C, b]
      else if b = CHR 0x08 then [CHR 0x5C, CHR ''b'']
      else if b = CHR 0x0C then [CHR 0x5C, CHR ''f'']
      else if b = CHR 0x0A then [CHR 0x5C, CHR ''n'']
      else if b = CHR 0x0D then [CHR 0x5C, CHR ''r'']
      else if b = CHR 0x09 then [CHR 0x5C, CHR ''t'']
      else if (of_char b :: nat) < 0x20 \<or> b = CHR ''<'' \<or> b = CHR ''>'' \<or> b = CHR ''&''
      then [CHR 0x5C, CHR ''u'', CHR ''0'', CHR ''0'',
            hexDigit (of_char b div 16), hexDigit (of_char b mod 16)]
      else [b])"

function appendString :: "string \<Rightarrow> string" where
  "appendString [] = []"
| "appendString (b # bs) =
     (if (of_char b :: nat) < 0x80 then escapeByte b @ appendString bs
      else if decodeSize (b # bs) = 0 then CHR 0x5C # ''ufffd'' @ appendString bs
      else if take 3 (b # bs) = [CHR 0xE2, CHR 0x80, CHR 0xA8]
      then CHR 0x5C # ''u2028'' @ appendString (drop 3 (b # bs))
      else if take 3 (b # bs) = [CHR 0xE2, CHR 0x80, CHR 0xA9]
      then CHR 0x5C # ''u2029'' @ appendString (drop 3 (b # bs))
      else take (decodeSize (b # bs)) (b # bs) @ appendString (drop (decodeSize (b # bs)) (b # bs)))"
  by pat_completeness auto
termination
  by (relation "measure length") auto

definition jsonString :: "string \<Rightarrow> string" where
  "jsonString s = CHR 0x22 # appendString s @ [CHR 0x22]"

fun arrayTail :: "string list \<Rightarrow> string" where
  "arrayTail [] = '']''"
| "arrayTail (x # xs) = '','' @ jsonString x @ arrayTail xs"

definition jsonMarshal :: "string list \<Rightarrow> string" where
  "jsonMarshal p = (case p of [] \<Rightarrow> ''[]'' | x # xs \<Rightarrow> ''['' @ jsonString x @ arrayTail xs)"

text \<open>
  Modelled from the Go library: \<^verbatim>\<open>math.Exp\<close> on a finite argument. Above \<^verbatim>\<open>Overflow\<close>
  the result is the infinity, below \<^verbatim>\<open>Underflow\<close> it is exactly 0 (the two constants are
  those of Go's \<^verbatim>\<open>math\<close> package); in between it is the exponential, not rounded.
\<close>

definition Overflow :: real where
  "Overflow = 709782712893383973096 / 10 ^ 18"

definition Underflow :: real where
  "Underflow = - (745133219101941108420 / 10 ^ 18)"

definition math_Exp :: "real \<Rightarrow> float64" where
  "math_Exp x = (if Overflow < x then PosInf else if x < Underflow then Fin 0 else Fin (exp x))"

text \<open>
  Arithmetic of \<^verbatim>\<open>float64\<close> with the values that are not finite: the quotient of two
  finite numbers, a finite number minus a float, \<^verbatim>\<open>math.Exp\<close> of a float, and the
  product of two floats. Signed zeros are not told apart.
\<close>

definition fdiv :: "real \<Rightarrow> real \<Rightarrow> float64" where
  "fdiv a b = (if b \<noteq> 0 then Fin (a / b) else if a = 0 then NaN else if 0 < a then PosInf else NegInf)"

fun fsub :: "real \<Rightarrow> float64 \<Rightarrow> float64" where
  "fsub a (Fin b) = Fin (a - b)"
| "fsub a PosInf = NegInf"
| "fsub a NegInf = PosInf"
| "fsub a NaN = NaN"

fun fexp :: "float64 \<Rightarrow> float64" where
  "fexp (Fin a) = math_Exp a"
| "fexp PosInf = PosInf"
| "fexp NegInf = Fin 0"
| "fexp NaN = NaN"

fun fmul :: "float64 \<Rightarrow> float64 \<Rightarrow> float64" where
  "fmul NaN y = NaN"
| "fmul x NaN = NaN"
| "fmul (Fin a) (Fin b) = Fin (a * b)"
| "fmul (Fin a) PosInf = (if a = 0 then NaN else if 0 < a then PosInf else NegInf)"
| "fmul (Fin a) NegInf = (if a = 0 then NaN else if 0 < a then NegInf else PosInf)"
| "fmul PosInf (Fin b) = (if b = 0 then NaN else if 0 < b then PosInf else NegInf)"
| "fmul NegInf (Fin b) = (if b = 0 then NaN else if 0 < b then NegInf else PosInf)"
| "fmul PosInf PosInf = PosInf"
| "fmul PosInf NegInf = NegInf"
| "fmul NegInf PosInf = NegInf"
| "fmul NegInf NegInf = PosInf"

subsection \<open>N-grams and their counts\<close>

text \<open>
  \<^verbatim>\<open>phrase.String\<close>: the JSON text of the n-gram. \<^verbatim>\<open>json.Marshal\<close> returns no error
  on a slice of strings, so the branch with \<^verbatim>\<open>log.Fatal\<close> is not taken.
\<close>

definition phraseString :: "phrase \<Rightarrow> string" where
  "phraseString p = jsonMarshal p"

text \<open>
  \<^verbatim>\<open>getNgrams\<close>: the loop runs \<open>i\<close> from 0 while \<open>i < len(s) - n + 1\<close> and appends
  \<open>s[i:i+n]\<close>. The order \<open>n\<close> is a natural number: the program calls with \<open>i + 1\<close>
  for an index \<open>i\<close>.
\<close>

definition getNgrams :: "Sentence \<Rightarrow> nat \<Rightarrow> phrase list" where
  "getNgrams s n = map (\<lambda>i. take n (drop i s)) [0..<length s + 1 - n]"

text \<open>\<open>m[k]\<close> of a Go map: the zero value when the key is absent.\<close>

definition lookup :: "counts \<Rightarrow> string \<Rightarrow> int" where
  "lookup m k = (case map_of m k of None \<Rightarrow> 0 | Some v \<Rightarrow> v)"

definition countNgrams :: "phrase list \<Rightarrow> counts" where
  "countNgrams ngrams =
     foldl (\<lambda>counts gram. AList.update (phraseString gram) (lookup counts (phraseString gram) + 1) counts)
       [] ngrams"

definition sum_go :: "(counts \<Rightarrow> counts) \<Rightarrow> counts \<Rightarrow> int" where
  "sum_go visit m = foldl (\<lambda>s (k, v). s + v) 0 (visit m)"

definition min_go :: "int \<Rightarrow> int \<Rightarrow> int" where
  "min_go a b = (if a < b then a else b)"

definition abs_go :: "int \<Rightarrow> int" where
  "abs_go a = (if a < 0 then - a else a)"

subsection \<open>Modified precision\<close>

text \<open>The body of the inner loop of \<^verbatim>\<open>modifiedPrecision\<close>, for one key of \<open>counts\<close>.\<close>

definition maxStep :: "counts \<Rightarrow> counts \<Rightarrow> string \<Rightarrow> counts" where
  "maxStep referenceCounts maxCounts ngram =
     (case map_of maxCounts ngram of
        None \<Rightarrow> AList.update ngram (lookup referenceCounts ngram) maxCounts
      | Some v \<Rightarrow>
          if v < lookup referenceCounts ngram
          then AList.update ngram (lookup referenceCounts ngram) maxCounts
          else maxCounts)"

text \<open>The loop over the references, \<open>i\<close> the index of the reference.\<close>

definition maxLoop :: "range_order \<Rightarrow> counts \<Rightarrow> nat \<Rightarrow> Sentence list \<Rightarrow> counts" where
  "maxLoop ord counts n references =
     foldl (\<lambda>maxCounts (i, reference).
              let referenceCounts = countNgrams (getNgrams reference n)
              in foldl (maxStep referenceCounts) maxCounts (map fst (ord (3 + i) counts)))
       [] (enumerate 0 references)"

definition clipLoop :: "range_order \<Rightarrow> counts \<Rightarrow> counts \<Rightarrow> counts" where
  "clipLoop ord counts maxCounts =
     foldl (\<lambda>clippedCounts (ngram, count).
              AList.update ngram (min_go count (lookup maxCounts ngram)) clippedCounts)
       [] (ord 0 counts)"

definition modifiedPrecision :: "range_order \<Rightarrow> Sentence \<Rightarrow> Sentence list \<Rightarrow> nat \<Rightarrow> bool \<Rightarrow> real" where
  "modifiedPrecision ord candidate references n smoothing =
     (let ngrams = getNgrams candidate n in
      if length ngrams = 0 then 0
      else
        let counts = countNgrams ngrams in
        if length counts = 0 then 0
        else
          let maxCounts = maxLoop ord counts n references;
              clippedCounts = clipLoop ord counts maxCounts;
              smoothingFactor = (if smoothing then 1 else 0)
          in (real_of_int (sum_go (ord 1) clippedCounts) + smoothingFactor)
               / (real_of_int (sum_go (ord 2) counts) + smoothingFactor))"

subsection \<open>Brevity penalty\<close>

text \<open>
  The search for the closest reference length: the pair \<open>(minDiffInd, minDiff)\<close>, from
  \<open>(0, -1)\<close>. Then \<open>refLens[minDiffInd]\<close> is read, which panics when the index is not
  below the length of \<open>refLens\<close>.
\<close>

definition closestStep :: "int \<Rightarrow> int list \<Rightarrow> nat \<times> int \<Rightarrow> nat \<Rightarrow> nat \<times> int" where
  "closestStep c refLens = (\<lambda>(minDiffInd, minDiff) i.
              if minDiff = - 1 \<or> abs_go (refLens ! i - c) < minDiff
              then (i, abs_go (refLens ! i - c))
              else (minDiffInd, minDiff))"

definition closest :: "int \<Rightarrow> int list \<Rightarrow> nat \<times> int" where
  "closest c refLens = foldl (closestStep c refLens) (0, - 1) [0..<length refLens]"

definition brevityPenalty :: "Sentence \<Rightarrow> Sentence list \<Rightarrow> fault + float64" where
  "brevityPenalty candidate references =
     (let c = int (length candidate);
          refLens = map (\<lambda>reference. int (length reference)) references;
          minDiffInd = fst (closest c refLens)
      in if minDiffInd < length refLens
         then
           let r = refLens ! minDiffInd in
           if c > r then Inr (Fin 1)
           else Inr (fexp (fsub 1 (fdiv (real_of_int r) (real_of_int c))))
         else Inl IndexOutOfRange)"

subsection \<open>The score\<close>

text \<open>The precisions \<open>ps\<close>, and the loop that adds the weighted logarithms up.\<close>

definition precisions :: "(nat \<Rightarrow> range_order) \<Rightarrow> Sentence \<Rightarrow> Sentence list \<Rightarrow> nat \<Rightarrow> bool \<Rightarrow> real list" where
  "precisions sched candidate references k smoothing =
     map (\<lambda>i. modifiedPrecision (sched i) candidate references (i + 1) smoothing) [0..<k]"

definition logSum :: "real list \<Rightarrow> real list \<Rightarrow> real \<times> int" where
  "logSum weights ps =
     foldl (\<lambda>(s, overlap) i.
              let w = weights ! i; pn = ps ! i
              in if pn > 0 then (s + w * ln pn, overlap + 1) else (s, overlap))
       (0, 0) [0..<length weights]"

definition computeBleu ::
  "(string \<Rightarrow> string) \<Rightarrow> (nat \<Rightarrow> range_order) \<Rightarrow> Sentence \<Rightarrow> Sentence list \<Rightarrow> real list \<Rightarrow> bool
     \<Rightarrow> fault + float64" where
  "computeBleu unicodeLower sched candidate references weights smoothing =
     (let candidate = map (ToLower unicodeLower) candidate;
          references = map (map (ToLower unicodeLower)) references;
          ps = precisions sched candidate references (length weights) smoothing;
          (s, overlap) = logSum weights ps
      in if overlap = 0 then Inr (Fin 0)
         else
           case brevityPenalty candidate references of
             Inl e \<Rightarrow> Inl e
           | Inr bp \<Rightarrow> Inr (fmul bp (math_Exp s)))"

definition Compute ::
  "(string \<Rightarrow> string) \<Rightarrow> (nat \<Rightarrow> range_order) \<Rightarrow> Sentence \<Rightarrow> Sentence list \<Rightarrow> real list
     \<Rightarrow> fault + float64" where
  "Compute unicodeLower sched candidate references weights =
     computeBleu unicodeLower sched candidate references weights False"

definition Smooth ::
  "(string \<Rightarrow> string) \<Rightarrow> (nat \<Rightarrow> range_order) \<Rightarrow> Sentence \<Rightarrow> Sentence list \<Rightarrow> real list
     \<Rightarrow> fault + float64" where
  "Smooth unicodeLower sched candidate references weights =
     computeBleu unicodeLower sched candidate references weights True"

text \<open>
  \<^verbatim>\<open>computeBleu\<close> lower-cases the caller's slices in place. After the call the caller
  holds these; the stores are element by element, so slices that share memory are
  lower-cased more than once.
\<close>

definition lowered ::
  "(string \<Rightarrow> string) \<Rightarrow> Sentence \<times> Sentence list \<Rightarrow> Sentence \<times> Sentence list" where
  "lowered unicodeLower inputs =
     (map (ToLower unicodeLower) (fst inputs), map (map (ToLower unicodeLower)) (snd inputs))"

subsection \<open>The specification's notions\<close>

text \<open>
  The largest number of occurrences of the n-gram \<open>g\<close> in a single reference: each
  reference is counted on its own and the maximum is taken. With no reference at all
  nothing has been counted, and the program reads 0 from its empty map.
\<close>

definition refMax :: "Sentence list \<Rightarrow> nat \<Rightarrow> phrase \<Rightarrow> int" where
  "refMax references n g =
     (if references = [] then 0
      else Max ((\<lambda>reference. int (count_list (getNgrams reference n) g)) ` set references))"

text \<open>
  The precision of order \<open>n\<close> as the specification words it: the clipped counts of
  the distinct candidate n-grams, summed, over the number of candidate n-grams, with the
  smoothing factor added above and below. An n-gram is the tuple of its tokens here.
\<close>

definition spec_precision :: "Sentence \<Rightarrow> Sentence list \<Rightarrow> nat \<Rightarrow> bool \<Rightarrow> real" where
  "spec_precision candidate references n smoothing =
     (let grams = getNgrams candidate n;
          smoothingFactor = (if smoothing then 1 else 0)
      in (real_of_int (\<Sum>g\<in>set grams. min (int (count_list grams g)) (refMax references n g))
            + smoothingFactor)
         / (real (length grams) + smoothingFactor))"

text \<open>
  The index \<open>i\<close> holds the length closest to \<open>c\<close>, and is the first to do so.
\<close>

definition closest_first :: "int \<Rightarrow> int list \<Rightarrow> nat \<Rightarrow> bool" where
  "closest_first c lens i \<longleftrightarrow>
     i < length lens \<and>
     (\<forall>j<length lens. \<bar>lens ! i - c\<bar> \<le> \<bar>lens ! j - c\<bar>) \<and>
     (\<forall>j<i. \<bar>lens ! i - c\<bar> < \<bar>lens ! j - c\<bar>)"

text \<open>A string that is valid UTF-8: it splits into runes that Go decodes without error.\<close>

function validUTF8 :: "string \<Rightarrow> bool" where
  "validUTF8 [] = True"
| "validUTF8 (b # bs) =
     (if decodeSize (b # bs) = 0 then False
      else validUTF8 (drop (decodeSize (b # bs)) (b # bs)))"
  by pat_completeness auto
termination
  by (relation "measure length") auto

text \<open>A score within \<open>eps\<close> of \<open>v\<close>; a panic or a float that is not finite is not.\<close>

definition approximately :: "fault + float64 \<Rightarrow> real \<Rightarrow> real \<Rightarrow> bool" where
  "approximately res v eps = (case res of Inr (Fin x) \<Rightarrow> abs (x - v) \<le> eps | _ \<Rightarrow> False)"

text \<open>Two penalties, both finite numbers, the first strictly below the second.\<close>

definition strictly_below :: "fault + float64 \<Rightarrow> fault + float64 \<Rightarrow> bool" where
  "strictly_below a b =
     (case a of
        Inr (Fin p) \<Rightarrow> (case b of Inr (Fin q) \<Rightarrow> p < q | _ \<Rightarrow> False)
      | _ \<Rightarrow> False)"

subsection \<open>Names for the proofs\<close>

text \<open>The keys of a list of n-grams, in the order of the list.\<close>

definition keysOf :: "phrase list \<Rightarrow> string list" where
  "keysOf ngrams = map phraseString ngrams"

text \<open>
  What the loops of \<^verbatim>\<open>modifiedPrecision\<close> compute, key by key: the largest count of a
  key in a single reference, and the clipped sum over the number of candidate n-grams.
\<close>

definition keyMax :: "Sentence list \<Rightarrow> nat \<Rightarrow> string \<Rightarrow> int" where
  "keyMax references n k =
     (if references = [] then 0
      else Max ((\<lambda>reference. int (count_list (keysOf (getNgrams reference n)) k)) ` set references))"

definition keyPrecision :: "Sentence \<Rightarrow> Sentence list \<Rightarrow> nat \<Rightarrow> bool \<Rightarrow> real" where
  "keyPrecision candidate references n smoothing =
     (let ks = keysOf (getNgrams candidate n);
          smoothingFactor = (if smoothing then 1 else 0)
      in (real_of_int (\<Sum>k\<in>set ks. min (int (count_list ks k)) (keyMax references n k))
            + smoothingFactor)
         / (real (length ks) + smoothingFactor))"

text \<open>The running maximum of the inner loop, over the references seen so far.\<close>

fun seenMax :: "int option \<Rightarrow> int list \<Rightarrow> int option" where
  "seenMax a [] = a"
| "seenMax a (x # xs) = seenMax (Some (case a of None \<Rightarrow> x | Some v \<Rightarrow> max v x)) xs"

text \<open>
  The precisions of the orders 1 to \<open>k\<close> in closed form, and the part of
  \<^verbatim>\<open>computeBleu\<close> after the precisions have been computed.
\<close>

definition closedPrecisions :: "Sentence \<Rightarrow> Sentence list \<Rightarrow> nat \<Rightarrow> bool \<Rightarrow> real list" where
  "closedPrecisions candidate references k smoothing =
     map (\<lambda>i. if getNgrams candidate (i + 1) = [] then 0
              else keyPrecision candidate references (i + 1) smoothing) [0..<k]"

definition scoreOf :: "Sentence \<Rightarrow> Sentence list \<Rightarrow> real list \<Rightarrow> real list \<Rightarrow> fault + float64" where
  "scoreOf candidate references weights ps =
     (case logSum weights ps of
        (s, overlap) \<Rightarrow>
          if overlap = 0 then Inr (Fin 0)
          else
            case brevityPenalty candidate references of
              Inl e \<Rightarrow> Inl e
            | Inr bp \<Rightarrow> Inr (fmul bp (math_Exp s)))"

text \<open>The order that visits every map as it was filled, for every call.\<close>

definition insertion_sched :: "nat \<Rightarrow> range_order" where
  "insertion_sched i = insertion_order"

text \<open>
  A reader for the JSON text of a string, up to the closing quote: it undoes
  \<open>appendString\<close> on valid UTF-8.
\<close>

definition hexVal :: "char \<Rightarrow> nat" where
  "hexVal c = (let x = (of_char c :: nat) in if x < 0x3A then x - 0x30 else x - 0x57)"

definition unescape :: "char \<Rightarrow> char" where
  "unescape e =
     (if e = CHR ''b'' then CHR 0x08
      else if e = CHR ''f'' then CHR 0x0C
      else if e = CHR ''n'' then CHR 0x0A
      else if e = CHR ''r'' then CHR 0x0D
      else if e = CHR ''t'' then CHR 0x09
      else e)"

definition unhex :: "string \<Rightarrow> string" where
  "unhex hs =
     (if hs = ''2028'' then [CHR 0xE2, CHR 0x80, CHR 0xA8]
      else if hs = ''2029'' then [CHR 0xE2, CHR 0x80, CHR 0xA9]
      else [char_of (16 * hexVal (hs ! 2) + hexVal (hs ! 3))])"

function readBody :: "string \<Rightarrow> string \<times> string" where
  "readBody [] = ([], [])"
| "readBody (c # cs) =
     (if c = CHR 0x22 then ([], cs)
      else if c = CHR 0x5C then
        (case cs of
           [] \<Rightarrow> ([], [])
         | e # cs' \<Rightarrow>
             if e = CHR ''u''
             then (unhex (take 4 cs') @ fst (readBody (drop 4 cs')), snd (readBody (drop 4 cs')))
             else (unescape e # fst (readBody cs'), snd (readBody cs')))
      else (c # fst (readBody cs), snd (readBody cs)))"
  by pat_completeness auto
termination
  by (relation "measure length") auto

text \<open>
  A stand-in for the Unicode path of \<^verbatim>\<open>strings.ToLower\<close>, for the instances below: it
  takes \<open>U+00C9\<close> (bytes C3 89) to \<open>U+00E9\<close> (bytes C3 A9), keeps every other valid
  string and answers \<open>U+FFFD\<close> for a string that is not valid UTF-8.
\<close>

definition sampleLower :: "string \<Rightarrow> string" where
  "sampleLower s =
     (if s = [CHR 0xC3, CHR 0x89] then [CHR 0xC3, CHR 0xA9]
      else if validUTF8 s then s
      else [CHR 0xEF, CHR 0xBF, CHR 0xBD])"

section \<open>Properties\<close>

subsection \<open>Counting n-grams\<close>

lemma lookup_update: "lookup (AList.update k v m) k' = (if k' = k then v else lookup m k')"
  by (simp add: lookup_def update_conv')

lemma count_fold_map_of:
  "map_of (foldl (\<lambda>counts gram. AList.update gram (lookup counts gram + 1) counts) acc gs) k =
     (if k \<in> set gs \<or> k \<in> fst ` set acc then Some (lookup acc k + int (count_list gs k)) else None)"
proof (induction gs arbitrary: acc)
  case Nil
  then show ?case
    by (auto simp: lookup_def map_of_eq_None_iff split: option.splits)
next
  case (Cons g gs)
  show ?case
    by (simp add: Cons.IH lookup_update dom_update)
qed

lemma count_fold_distinct:
  "distinct (map fst acc) \<Longrightarrow>
   distinct (map fst (foldl (\<lambda>counts gram. AList.update gram (lookup counts gram + 1) counts) acc gs))"
  by (induction gs arbitrary: acc) (simp_all add: distinct_update)

lemma lookup_Nil: "lookup [] k = 0"
  by (simp add: lookup_def)

lemma countNgrams_keys:
  "countNgrams gs =
     foldl (\<lambda>counts k. AList.update k (lookup counts k + 1) counts) [] (keysOf gs)"
  by (simp add: countNgrams_def keysOf_def foldl_map)

lemma map_of_countNgrams:
  "map_of (countNgrams gs) k =
     (if k \<in> set (keysOf gs) then Some (int (count_list (keysOf gs) k)) else None)"
  by (simp add: countNgrams_keys count_fold_map_of lookup_Nil)

lemma distinct_countNgrams: "distinct (map fst (countNgrams gs))"
  by (simp add: countNgrams_keys count_fold_distinct)

lemma keys_countNgrams: "fst ` set (countNgrams gs) = set (keysOf gs)"
proof -
  have "dom (map_of (countNgrams gs)) = set (keysOf gs)"
    by (auto simp: map_of_countNgrams dom_def)
  then show ?thesis by (simp add: dom_map_of_conv_image_fst)
qed

lemma lookup_countNgrams: "lookup (countNgrams gs) k = int (count_list (keysOf gs) k)"
  by (simp add: lookup_def map_of_countNgrams count_list_0_iff)

lemma countNgrams_empty_iff: "countNgrams gs = [] \<longleftrightarrow> gs = []"
proof -
  have "countNgrams gs = [] \<longleftrightarrow> keysOf gs = []"
    using keys_countNgrams [of gs] by (metis image_is_empty set_empty)
  then show ?thesis by (simp add: keysOf_def)
qed

subsection \<open>Sums over a map do not depend on the order of the visit\<close>

lemma foldl_add_snd: "foldl (\<lambda>s (k, v). s + v) (a::int) xs = a + sum_list (map snd xs)"
  by (induction xs arbitrary: a) (auto simp: case_prod_beta)

lemma sum_list_alist:
  "distinct (map fst m) \<Longrightarrow> sum_list (map snd m) = (\<Sum>k\<in>fst ` set m. lookup m k)"
proof (induction m)
  case Nil
  then show ?case by simp
next
  case (Cons p m)
  obtain k v where p: "p = (k, v)" by (cases p)
  from Cons.prems p have k: "k \<notin> fst ` set m" and d: "distinct (map fst m)" by auto
  have "(\<Sum>k'\<in>fst ` set m. lookup (p # m) k') = (\<Sum>k'\<in>fst ` set m. lookup m k')"
    using k by (intro sum.cong) (auto simp: lookup_def p)
  then show ?case
    using k d Cons.IH by (simp add: p lookup_def)
qed

lemma sum_go_valid:
  assumes "mset (visit m) = mset m" and "distinct (map fst m)"
  shows "sum_go visit m = (\<Sum>k\<in>fst ` set m. lookup m k)"
proof -
  have "sum_list (map snd (visit m)) = sum_list (map snd m)"
    using assms(1) by (metis mset_map sum_mset_sum_list)
  then show ?thesis
    by (simp add: sum_go_def foldl_add_snd sum_list_alist [OF assms(2)])
qed

subsection \<open>The loops of modifiedPrecision\<close>

lemma map_of_maxStep:
  "map_of (maxStep rc mc g) =
     (map_of mc)(g \<mapsto> (case map_of mc g of None \<Rightarrow> lookup rc g | Some v \<Rightarrow> max v (lookup rc g)))"
  by (auto simp: maxStep_def update_conv' fun_eq_iff split: option.splits)

lemma map_of_foldl_maxStep:
  "map_of (foldl (maxStep rc) mc ks) k =
     (if k \<in> set ks
      then Some (case map_of mc k of None \<Rightarrow> lookup rc k | Some v \<Rightarrow> max v (lookup rc k))
      else map_of mc k)"
proof (induction ks arbitrary: mc)
  case Nil
  then show ?case by simp
next
  case (Cons a ks)
  show ?case
    by (simp add: Cons.IH map_of_maxStep split: option.splits)
qed

lemma seenMax_Some: "seenMax (Some v) xs = Some (Max (insert v (set xs)))"
proof (induction xs arbitrary: v)
  case Nil
  then show ?case by simp
next
  case (Cons x xs)
  have "Max (insert (max v x) (set xs)) = Max (insert v (insert x (set xs)))"
    by (cases "set xs = {}") (simp_all add: max.assoc)
  then show ?case by (simp only: seenMax.simps option.case Cons.IH list.set)
qed

lemma seenMax_None: "seenMax None xs = (if xs = [] then None else Some (Max (set xs)))"
  by (cases xs) (simp_all add: seenMax_Some)

lemma valid_order_keys:
  assumes "valid_order ord"
  shows "set (map fst (ord j m)) = fst ` set m"
proof -
  have "mset (ord j m) = mset m" using assms by (simp add: valid_order_def)
  then have "set (ord j m) = set m" by (rule mset_eq_setD)
  then show ?thesis by simp
qed

lemma maxLoop_aux:
  assumes "valid_order ord"
  shows "map_of (foldl (\<lambda>maxCounts (i, reference).
              foldl (maxStep (countNgrams (getNgrams reference n))) maxCounts
                (map fst (ord (3 + i) counts)))
       mc (enumerate b refs)) k =
     (if k \<in> fst ` set counts
      then seenMax (map_of mc k) (map (\<lambda>r. int (count_list (keysOf (getNgrams r n)) k)) refs)
      else map_of mc k)"
proof (induction refs arbitrary: mc b)
  case Nil
  then show ?case by simp
next
  case (Cons r refs)
  show ?case
    by (simp add: Cons.IH map_of_foldl_maxStep valid_order_keys [OF assms] lookup_countNgrams
        del: set_map split: option.splits)
qed

lemma lookup_maxLoop:
  assumes "valid_order ord" and "k \<in> fst ` set counts"
  shows "lookup (maxLoop ord counts n refs) k = keyMax refs n k"
  using assms(2)
  by (simp add: lookup_def maxLoop_def Let_def maxLoop_aux [OF assms(1)] seenMax_None keyMax_def)

lemma clip_fold_map_of:
  "distinct (map fst xs) \<Longrightarrow>
   map_of (foldl (\<lambda>clippedCounts (ngram, count).
              AList.update ngram (min_go count (lookup mc ngram)) clippedCounts) acc xs) k =
     (case map_of xs k of None \<Rightarrow> map_of acc k | Some c \<Rightarrow> Some (min_go c (lookup mc k)))"
proof (induction xs arbitrary: acc)
  case Nil
  then show ?case by simp
next
  case (Cons p xs)
  obtain g c where p: "p = (g, c)" by (cases p)
  from Cons.prems p have "map_of xs g = None" and "distinct (map fst xs)"
    by (auto simp: map_of_eq_None_iff)
  then show ?case
    by (simp add: p Cons.IH update_conv' split: option.splits)
qed

lemma clip_fold_distinct:
  "distinct (map fst acc) \<Longrightarrow>
   distinct (map fst (foldl (\<lambda>clippedCounts (ngram, count).
              AList.update ngram (min_go count (lookup mc ngram)) clippedCounts) acc xs))"
  by (induction xs arbitrary: acc) (auto simp: distinct_update)

lemma valid_order_map_of:
  assumes "valid_order ord" and "distinct (map fst m)"
  shows "distinct (map fst (ord j m))" and "map_of (ord j m) = map_of m"
proof -
  have eq: "mset (ord j m) = mset m" using assms(1) by (simp add: valid_order_def)
  then have "mset (map fst (ord j m)) = mset (map fst m)" by simp
  then show d: "distinct (map fst (ord j m))"
    using assms(2) by (metis mset_eq_imp_distinct_iff)
  from eq have "set (ord j m) = set m" by (rule mset_eq_setD)
  then show "map_of (ord j m) = map_of m"
    using d assms(2) by (simp add: map_of_inject_set)
qed

lemma map_of_clipLoop:
  assumes "valid_order ord" and "distinct (map fst counts)"
  shows "map_of (clipLoop ord counts mc) k =
     (case map_of counts k of None \<Rightarrow> None | Some c \<Rightarrow> Some (min_go c (lookup mc k)))"
  by (simp add: clipLoop_def clip_fold_map_of valid_order_map_of [OF assms] split: option.splits)

lemma distinct_clipLoop: "distinct (map fst (clipLoop ord counts mc))"
  by (simp add: clipLoop_def clip_fold_distinct)

lemma keys_clipLoop:
  assumes "valid_order ord" and "distinct (map fst counts)"
  shows "fst ` set (clipLoop ord counts mc) = fst ` set counts"
proof -
  have "dom (map_of (clipLoop ord counts mc)) = dom (map_of counts)"
    by (auto simp: map_of_clipLoop [OF assms] dom_def split: option.splits)
  then show ?thesis by (simp add: dom_map_of_conv_image_fst)
qed

subsection \<open>The closed form of modifiedPrecision\<close>

lemma min_go_min: "min_go a b = min a b"
  by (simp add: min_go_def min_def)

lemma sum_counts:
  assumes "valid_order ord"
  shows "sum_go (ord j) (countNgrams gs) = int (length gs)"
proof -
  have "mset (ord j (countNgrams gs)) = mset (countNgrams gs)"
    using assms by (simp add: valid_order_def)
  then have "sum_go (ord j) (countNgrams gs) =
      (\<Sum>k\<in>set (keysOf gs). lookup (countNgrams gs) k)"
    by (simp add: sum_go_valid distinct_countNgrams keys_countNgrams)
  also have "\<dots> = int (\<Sum>k\<in>set (keysOf gs). count_list (keysOf gs) k)"
    by (simp add: lookup_countNgrams)
  also have "\<dots> = int (length (keysOf gs))"
    by (simp add: sum_count_set)
  finally show ?thesis by (simp add: keysOf_def)
qed

lemma sum_clipped:
  assumes "valid_order ord"
  shows "sum_go (ord j) (clipLoop ord (countNgrams gs) (maxLoop ord (countNgrams gs) n refs)) =
           (\<Sum>k\<in>set (keysOf gs). min (int (count_list (keysOf gs) k)) (keyMax refs n k))"
proof -
  let ?counts = "countNgrams gs"
  let ?mc = "maxLoop ord ?counts n refs"
  let ?cl = "clipLoop ord ?counts ?mc"
  have "mset (ord j ?cl) = mset ?cl"
    using assms by (simp add: valid_order_def)
  then have "sum_go (ord j) ?cl = (\<Sum>k\<in>fst ` set ?cl. lookup ?cl k)"
    by (simp add: sum_go_valid distinct_clipLoop)
  also have "\<dots> = (\<Sum>k\<in>set (keysOf gs). lookup ?cl k)"
    by (simp add: keys_clipLoop [OF assms distinct_countNgrams] keys_countNgrams)
  also have "\<dots> =
      (\<Sum>k\<in>set (keysOf gs). min (int (count_list (keysOf gs) k)) (keyMax refs n k))"
  proof (rule sum.cong)
    fix g assume g: "g \<in> set (keysOf gs)"
    then have "g \<in> fst ` set ?counts" by (simp add: keys_countNgrams)
    then have "lookup ?mc g = keyMax refs n g"
      using assms by (simp add: lookup_maxLoop)
    then show "lookup ?cl g = min (int (count_list (keysOf gs) g)) (keyMax refs n g)"
      using g by (simp add: lookup_def map_of_clipLoop [OF assms distinct_countNgrams]
          map_of_countNgrams min_go_min)
  qed simp
  finally show ?thesis .
qed

lemma modifiedPrecision_closed:
  assumes "valid_order ord"
  shows "modifiedPrecision ord candidate references n smoothing =
           (if getNgrams candidate n = [] then 0
            else keyPrecision candidate references n smoothing)"
  by (simp add: modifiedPrecision_def keyPrecision_def Let_def countNgrams_empty_iff
      sum_counts [OF assms] sum_clipped [OF assms])
    (simp add: keysOf_def)

subsection \<open>The search for the closest reference\<close>

lemma abs_go_abs: "abs_go a = \<bar>a\<bar>"
  by (simp add: abs_go_def)

lemma closest_prefix:
  "m \<le> length lens \<Longrightarrow>
   (case foldl (closestStep c lens) (0, - 1) [0..<m] of
      (i, d) \<Rightarrow>
        if m = 0 then i = 0 \<and> d = - 1
        else i < m \<and> d = \<bar>lens ! i - c\<bar> \<and>
             (\<forall>j<m. d \<le> \<bar>lens ! j - c\<bar>) \<and> (\<forall>j<i. d < \<bar>lens ! j - c\<bar>))"
proof (induction m)
  case 0
  then show ?case by simp
next
  case (Suc m)
  obtain i d where id: "foldl (closestStep c lens) (0, - 1) [0..<m] = (i, d)"
    by (cases "foldl (closestStep c lens) (0, - 1) [0..<m]")
  from Suc have inv: "if m = 0 then i = 0 \<and> d = - 1
        else i < m \<and> d = \<bar>lens ! i - c\<bar> \<and>
             (\<forall>j<m. d \<le> \<bar>lens ! j - c\<bar>) \<and> (\<forall>j<i. d < \<bar>lens ! j - c\<bar>)"
    by (simp add: id)
  have step: "foldl (closestStep c lens) (0, - 1) [0..<Suc m] =
      (if d = - 1 \<or> \<bar>lens ! m - c\<bar> < d then (m, \<bar>lens ! m - c\<bar>) else (i, d))"
    by (simp add: id) (simp add: closestStep_def abs_go_abs)
  show ?case
  proof (cases "m = 0")
    case True
    with inv show ?thesis
      unfolding step by simp
  next
    case False
    with inv have i: "i < m" and d: "d = \<bar>lens ! i - c\<bar>"
      and le: "\<forall>j<m. d \<le> \<bar>lens ! j - c\<bar>" and lt: "\<forall>j<i. d < \<bar>lens ! j - c\<bar>"
      by auto
    have d1: "d \<noteq> - 1" using d by simp
    show ?thesis
    proof (cases "\<bar>lens ! m - c\<bar> < d")
      case True
      then have "\<forall>j<Suc m. \<bar>lens ! m - c\<bar> \<le> \<bar>lens ! j - c\<bar>"
        using le by (auto simp: less_Suc_eq)
      moreover have "\<forall>j<m. \<bar>lens ! m - c\<bar> < \<bar>lens ! j - c\<bar>"
        using le True by fastforce
      ultimately show ?thesis
        unfolding step using True by simp
    next
      case False
      then have "\<forall>j<Suc m. d \<le> \<bar>lens ! j - c\<bar>"
        using le by (auto simp: less_Suc_eq)
      then show ?thesis
        unfolding step using False i d lt d1 by simp
    qed
  qed
qed

lemma closest_closest_first:
  assumes "lens \<noteq> []"
  shows "closest_first c lens (fst (closest c lens))"
proof -
  have cl: "closest c lens = foldl (closestStep c lens) (0, - 1) [0..<length lens]"
    by (simp add: closest_def)
  obtain i d where id: "closest c lens = (i, d)" by (cases "closest c lens")
  from closest_prefix [of "length lens" lens c] assms id
  show ?thesis
    by (auto simp: cl [symmetric] closest_first_def)
qed

lemma closest_first_unique:
  assumes "closest_first c lens i" and "closest_first c lens j"
  shows "i = j"
proof (rule ccontr)
  assume "i \<noteq> j"
  then consider "i < j" | "j < i" by linarith
  then show False
  proof cases
    case 1
    with assms show False unfolding closest_first_def by (metis not_less)
  next
    case 2
    with assms show False unfolding closest_first_def by (metis not_less)
  qed
qed

lemma closest_Nil: "closest c [] = (0, - 1)"
  by (simp add: closest_def)

lemma brevityPenalty_Nil: "brevityPenalty candidate [] = Inl IndexOutOfRange"
  by (simp add: brevityPenalty_def closest_Nil)

lemma brevityPenalty_closed:
  assumes "candidate \<noteq> []"
    and "closest_first (int (length candidate)) (map (\<lambda>r. int (length r)) references) i"
  shows "brevityPenalty candidate references =
           Inr (if int (length candidate) > int (length (references ! i)) then Fin 1
                else math_Exp (1 - real (length (references ! i)) / real (length candidate)))"
proof -
  let ?c = "int (length candidate)"
  let ?lens = "map (\<lambda>r. int (length r)) references"
  from assms(2) have "?lens \<noteq> []" by (auto simp: closest_first_def)
  then have "closest_first ?c ?lens (fst (closest ?c ?lens))"
    by (rule closest_closest_first)
  then have i: "fst (closest ?c ?lens) = i"
    using assms(2) by (rule closest_first_unique)
  have il: "i < length references"
    using assms(2) by (simp add: closest_first_def)
  show ?thesis
    using assms(1) il by (simp add: brevityPenalty_def Let_def i fdiv_def)
qed

lemma getNgrams_nonempty: "n \<le> length s \<Longrightarrow> getNgrams s n \<noteq> []"
  by (simp add: getNgrams_def)

subsection \<open>The JSON text of an n-gram of valid UTF-8 tokens determines the n-gram\<close>

lemma hex_roundtrip: "list_all (\<lambda>n. hexVal (hexDigit n) = n) [0..<16]"
  by code_simp

lemma hexVal_hexDigit: "n < 16 \<Longrightarrow> hexVal (hexDigit n) = n"
  using hex_roundtrip by (simp add: list_all_iff)

lemma readBody_plain:
  "c \<noteq> CHR 0x22 \<Longrightarrow> c \<noteq> CHR 0x5C \<Longrightarrow>
   readBody (c # cs) = (c # fst (readBody cs), snd (readBody cs))"
  by simp

lemma readBody_high:
  "list_all (\<lambda>c. 0x80 \<le> (of_char c :: nat)) xs \<Longrightarrow>
   readBody (xs @ cs) = (xs @ fst (readBody cs), snd (readBody cs))"
proof (induction xs)
  case Nil
  then show ?case by simp
next
  case (Cons x xs)
  then have "x \<noteq> CHR 0x22" and "x \<noteq> CHR 0x5C" by auto
  then show ?case using Cons by (simp add: readBody_plain del: readBody.simps)
qed

lemma readBody_unicode_escape:
  "readBody (CHR 0x5C # CHR ''u'' # h0 # h1 # h2 # h3 # cs) =
     (unhex [h0, h1, h2, h3] @ fst (readBody cs), snd (readBody cs))"
  by simp

lemma unhex_byte:
  assumes "(of_char b :: nat) < 0x80"
  shows "unhex [CHR ''0'', CHR ''0'', hexDigit (of_char b div 16), hexDigit (of_char b mod 16)] = [b]"
proof -
  let ?x = "of_char b :: nat"
  have "?x div 16 < 16" "?x mod 16 < 16" using assms by simp_all
  then have "16 * hexVal (hexDigit (?x div 16)) + hexVal (hexDigit (?x mod 16)) = ?x"
    by (simp add: hexVal_hexDigit)
  then show ?thesis by (simp add: unhex_def)
qed

lemma readBody_escapeByte:
  assumes "(of_char b :: nat) < 0x80"
  shows "readBody (escapeByte b @ cs) = (b # fst (readBody cs), snd (readBody cs))"
  using unhex_byte [OF assms]
  by (simp add: escapeByte_def unescape_def)

lemma decodeSize_high:
  assumes "0x80 \<le> (of_char b :: nat)" and "decodeSize (b # bs) \<noteq> 0"
  shows "list_all (\<lambda>c. 0x80 \<le> (of_char c :: nat)) (take (decodeSize (b # bs)) (b # bs))"
  using assms
  by (auto simp: Let_def between_def split: if_splits list.splits)

lemma decodeSize_ascii: "(of_char b :: nat) < 0x80 \<Longrightarrow> decodeSize (b # bs) = 1"
  by simp

lemma readBody_appendString:
  "validUTF8 s \<Longrightarrow> readBody (appendString s @ CHR 0x22 # R) = (s, R)"
proof (induction s rule: appendString.induct)
  case 1
  then show ?case by simp
next
  case (2 b bs)
  let ?k = "decodeSize (b # bs)"
  from "2.prems" have k: "?k \<noteq> 0" and v: "validUTF8 (drop ?k (b # bs))"
    by (simp_all split: if_splits)
  show ?case
  proof (cases "(of_char b :: nat) < 0x80")
    case True
    then have "?k = 1" by simp
    with v have "validUTF8 bs" by simp
    then have "readBody (appendString bs @ CHR 0x22 # R) = (bs, R)"
      by (rule "2.IH"(1) [OF True])
    then show ?thesis
      using True by (simp add: readBody_escapeByte del: readBody.simps)
  next
    case False
    note high = this
    show ?thesis
    proof (cases "take 3 (b # bs) = [CHR 0xE2, CHR 0x80, CHR 0xA8]")
      case True
      then have k3: "?k = 3"
        by (auto simp: Let_def between_def take_Cons' split: list.splits if_splits nat.splits)
      from True have eq: "[CHR 0xE2, CHR 0x80, CHR 0xA8] @ drop 3 (b # bs) = b # bs"
        by (metis append_take_drop_id)
      have app: "appendString (b # bs) = CHR 0x5C # ''u2028'' @ appendString (drop 3 (b # bs))"
        by (simp only: appendString.simps(2) high k if_False)
          (simp only: True if_True simp_thms append_Cons append_Nil)
      from v k3 have v3: "validUTF8 (drop 3 (b # bs))"
        by (simp only:)
      have "readBody (appendString (drop 3 (b # bs)) @ CHR 0x22 # R) = (drop 3 (b # bs), R)"
        by (rule "2.IH"(3) [OF high k True v3])
      then have "readBody (appendString (b # bs) @ CHR 0x22 # R) =
          ([CHR 0xE2, CHR 0x80, CHR 0xA8] @ drop 3 (b # bs), R)"
        unfolding app by (simp add: readBody_unicode_escape unhex_def del: readBody.simps)
      then show ?thesis by (simp only: eq)
    next
      case n8: False
      show ?thesis
      proof (cases "take 3 (b # bs) = [CHR 0xE2, CHR 0x80, CHR 0xA9]")
        case True
        then have k3: "?k = 3"
          by (auto simp: Let_def between_def take_Cons' split: list.splits if_splits nat.splits)
        from True have eq: "[CHR 0xE2, CHR 0x80, CHR 0xA9] @ drop 3 (b # bs) = b # bs"
          by (metis append_take_drop_id)
        have app: "appendString (b # bs) = CHR 0x5C # ''u2029'' @ appendString (drop 3 (b # bs))"
          by (simp only: appendString.simps(2) high k n8 if_False)
            (simp only: True if_True simp_thms append_Cons append_Nil)
        from v k3 have v3: "validUTF8 (drop 3 (b # bs))"
          by (simp only:)
        have "readBody (appendString (drop 3 (b # bs)) @ CHR 0x22 # R) = (drop 3 (b # bs), R)"
          by (rule "2.IH"(4) [OF high k n8 True v3])
        then have "readBody (appendString (b # bs) @ CHR 0x22 # R) =
            ([CHR 0xE2, CHR 0x80, CHR 0xA9] @ drop 3 (b # bs), R)"
          unfolding app by (simp add: readBody_unicode_escape unhex_def del: readBody.simps)
        then show ?thesis by (simp only: eq)
      next
        case n9: False
        have ih: "readBody (appendString (drop ?k (b # bs)) @ CHR 0x22 # R) = (drop ?k (b # bs), R)"
          by (rule "2.IH"(5) [OF high k n8 n9 v])
        have hi: "list_all (\<lambda>c. 0x80 \<le> (of_char c :: nat)) (take ?k (b # bs))"
          using high k by (intro decodeSize_high) simp_all
        have "appendString (b # bs) = take ?k (b # bs) @ appendString (drop ?k (b # bs))"
          by (simp only: appendString.simps(2) high k n8 n9 if_False)
        then show ?thesis
          using readBody_high [OF hi, of "appendString (drop ?k (b # bs)) @ CHR 0x22 # R"] ih
          by (simp del: readBody.simps decodeSize.simps appendString.simps)
      qed
    qed
  qed
qed

lemma jsonString_read:
  "validUTF8 s \<Longrightarrow> readBody (tl (jsonString s) @ R) = (s, R)"
  by (simp add: jsonString_def readBody_appendString)

lemma jsonString_inject:
  assumes "validUTF8 s" and "validUTF8 t" and "jsonString s @ R = jsonString t @ R'"
  shows "s = t \<and> R = R'"
proof -
  from assms(3) have "tl (jsonString s) @ R = tl (jsonString t) @ R'"
    by (simp add: jsonString_def)
  then have "readBody (tl (jsonString s) @ R) = readBody (tl (jsonString t) @ R')"
    by simp
  then show ?thesis
    using assms(1,2) by (simp add: jsonString_read)
qed

lemma arrayTail_inject:
  "list_all validUTF8 p \<Longrightarrow> list_all validUTF8 q \<Longrightarrow> arrayTail p = arrayTail q \<Longrightarrow> p = q"
proof (induction p arbitrary: q)
  case Nil
  then show ?case by (cases q) simp_all
next
  case (Cons x p)
  show ?case
  proof (cases q)
    case Nil
    with Cons.prems show ?thesis by simp
  next
    case q: (Cons y q')
    with Cons.prems have "jsonString x @ arrayTail p = jsonString y @ arrayTail q'"
      and vx: "validUTF8 x" and vy: "validUTF8 y"
      and vp: "list_all validUTF8 p" and vq: "list_all validUTF8 q'"
      by simp_all
    with jsonString_inject [OF vx vy] have "x = y" and "arrayTail p = arrayTail q'"
      by blast+
    with Cons.IH [OF vp vq] q show ?thesis by simp
  qed
qed

lemma jsonMarshal_inject:
  assumes "list_all validUTF8 p" and "list_all validUTF8 q" and "jsonMarshal p = jsonMarshal q"
  shows "p = q"
proof (cases p)
  case Nil
  with assms(3) show ?thesis
    by (cases q) (simp_all add: jsonMarshal_def jsonString_def)
next
  case p: (Cons x p')
  show ?thesis
  proof (cases q)
    case Nil
    with assms(3) p show ?thesis by (simp add: jsonMarshal_def jsonString_def)
  next
    case q: (Cons y q')
    with assms p have "jsonString x @ arrayTail p' = jsonString y @ arrayTail q'"
      and vx: "validUTF8 x" and vy: "validUTF8 y"
      and vp: "list_all validUTF8 p'" and vq: "list_all validUTF8 q'"
      by (simp_all add: jsonMarshal_def)
    with jsonString_inject [OF vx vy] have "x = y" and "arrayTail p' = arrayTail q'"
      by blast+
    with arrayTail_inject [OF vp vq] p q show ?thesis by simp
  qed
qed

lemma phraseString_inj_on: "inj_on phraseString {p. list_all validUTF8 p}"
  by (rule inj_onI) (simp add: phraseString_def jsonMarshal_inject)

lemma validUTF8_ascii: "isASCII s \<Longrightarrow> validUTF8 s"
  by (induction s) (simp_all add: isASCII_def)

lemma isASCII_toLower: "isASCII s \<Longrightarrow> isASCII (map toLowerByte s)"
  by (induction s) (auto simp: isASCII_def toLowerByte_def Let_def)

lemma validUTF8_ToLower:
  assumes "\<forall>s. validUTF8 (unicodeLower s)"
  shows "validUTF8 (ToLower unicodeLower s)"
  using assms by (simp add: ToLower_def validUTF8_ascii isASCII_toLower)

lemma getNgrams_valid:
  assumes "list_all validUTF8 s" and "g \<in> set (getNgrams s n)"
  shows "list_all validUTF8 g"
proof -
  from assms(2) obtain i where "g = take n (drop i s)"
    by (auto simp: getNgrams_def)
  then have "set g \<subseteq> set s"
    by (metis set_drop_subset set_take_subset subset_trans)
  with assms(1) show ?thesis by (auto simp: list_all_iff)
qed

subsection \<open>Keys and n-grams\<close>

lemma count_list_map_inj:
  "inj_on f (insert x (set xs)) \<Longrightarrow> count_list (map f xs) (f x) = count_list xs x"
proof (induction xs)
  case Nil
  then show ?case by simp
next
  case (Cons y xs)
  then have "inj_on f (insert x (set xs))"
    by (auto intro: inj_on_subset)
  moreover have "f y = f x \<longleftrightarrow> y = x"
    using Cons.prems by (auto simp: inj_on_def)
  ultimately show ?case using Cons.IH by simp
qed

lemma keyMax_refMax:
  assumes "inj_on phraseString (insert g (\<Union>r\<in>set references. set (getNgrams r n)))"
  shows "keyMax references n (phraseString g) = refMax references n g"
proof -
  have "count_list (keysOf (getNgrams r n)) (phraseString g) = count_list (getNgrams r n) g"
    if "r \<in> set references" for r
    unfolding keysOf_def
  proof (rule count_list_map_inj)
    show "inj_on phraseString (insert g (set (getNgrams r n)))"
      using assms that by (auto intro: inj_on_subset)
  qed
  then show ?thesis by (simp add: keyMax_def refMax_def)
qed

lemma keyPrecision_spec_precision:
  assumes "inj_on phraseString
             (set (getNgrams candidate n) \<union> (\<Union>r\<in>set references. set (getNgrams r n)))"
  shows "keyPrecision candidate references n smoothing =
           spec_precision candidate references n smoothing"
proof -
  let ?G = "getNgrams candidate n"
  have inj: "inj_on phraseString (set ?G)"
    using assms by (auto intro: inj_on_subset)
  have "(\<Sum>k\<in>set (keysOf ?G). min (int (count_list (keysOf ?G) k)) (keyMax references n k)) =
        (\<Sum>g\<in>set ?G. min (int (count_list (keysOf ?G) (phraseString g)))
                            (keyMax references n (phraseString g)))"
    using inj by (simp add: keysOf_def sum.reindex)
  also have "\<dots> = (\<Sum>g\<in>set ?G. min (int (count_list ?G g)) (refMax references n g))"
  proof (rule sum.cong)
    fix g assume g: "g \<in> set ?G"
    then have "inj_on phraseString (insert g (set ?G))"
      using inj by (simp add: insert_absorb)
    then have c: "count_list (keysOf ?G) (phraseString g) = count_list ?G g"
      unfolding keysOf_def by (rule count_list_map_inj)
    have "inj_on phraseString (insert g (\<Union>r\<in>set references. set (getNgrams r n)))"
      using g by (intro inj_on_subset [OF assms]) auto
    then have "keyMax references n (phraseString g) = refMax references n g"
      by (rule keyMax_refMax)
    with c show "min (int (count_list (keysOf ?G) (phraseString g)))
                     (keyMax references n (phraseString g)) =
                 min (int (count_list ?G g)) (refMax references n g)"
      by simp
  qed simp
  finally show ?thesis
    by (simp add: keyPrecision_def spec_precision_def Let_def keysOf_def del: of_int_sum)
qed

lemma valid_inj_on:
  assumes "list_all validUTF8 candidate" and "list_all (list_all validUTF8) references"
  shows "inj_on phraseString
           (set (getNgrams candidate n) \<union> (\<Union>r\<in>set references. set (getNgrams r n)))"
proof (rule inj_on_subset [OF phraseString_inj_on])
  show "set (getNgrams candidate n) \<union> (\<Union>r\<in>set references. set (getNgrams r n))
          \<subseteq> {p. list_all validUTF8 p}"
  proof
    fix p
    assume "p \<in> set (getNgrams candidate n) \<union> (\<Union>r\<in>set references. set (getNgrams r n))"
    then consider "p \<in> set (getNgrams candidate n)"
      | r where "r \<in> set references" and "p \<in> set (getNgrams r n)"
      by auto
    then have "list_all validUTF8 p"
    proof cases
      case 1
      with assms(1) show ?thesis by (rule getNgrams_valid)
    next
      case 2
      from assms(2) 2(1) have "list_all validUTF8 r" by (simp add: list_all_iff)
      then show ?thesis using 2(2) by (rule getNgrams_valid)
    qed
    then show "p \<in> {p. list_all validUTF8 p}" by simp
  qed
qed

lemma keyPrecision_valid:
  assumes "list_all validUTF8 candidate" and "list_all (list_all validUTF8) references"
  shows "keyPrecision candidate references n smoothing =
           spec_precision candidate references n smoothing"
  by (rule keyPrecision_spec_precision) (rule valid_inj_on [OF assms])

subsection \<open>The score does not depend on the order of the visits\<close>

lemma precisions_closed:
  assumes "valid_sched sched"
  shows "precisions sched candidate references k smoothing =
           closedPrecisions candidate references k smoothing"
proof -
  have "valid_order (sched i)" for i
    using assms by (simp add: valid_sched_def)
  then show ?thesis
    by (simp add: precisions_def closedPrecisions_def modifiedPrecision_closed)
qed

lemma computeBleu_scoreOf:
  "computeBleu u sched candidate references weights smoothing =
     scoreOf (map (ToLower u) candidate) (map (map (ToLower u)) references) weights
       (precisions sched (map (ToLower u) candidate) (map (map (ToLower u)) references)
          (length weights) smoothing)"
  by (simp add: computeBleu_def scoreOf_def Let_def)

lemma computeBleu_closed:
  assumes "valid_sched sched"
  shows "computeBleu u sched candidate references weights smoothing =
     scoreOf (map (ToLower u) candidate) (map (map (ToLower u)) references) weights
       (closedPrecisions (map (ToLower u) candidate) (map (map (ToLower u)) references)
          (length weights) smoothing)"
  by (simp add: computeBleu_scoreOf precisions_closed [OF assms])

lemma computeBleu_order_irrelevant:
  assumes "valid_sched sched" and "valid_sched sched'"
  shows "computeBleu u sched candidate references weights smoothing =
         computeBleu u sched' candidate references weights smoothing"
  by (simp add: computeBleu_closed [OF assms(1)] computeBleu_closed [OF assms(2)])

lemma toLowerByte_idem: "toLowerByte (toLowerByte c) = toLowerByte c"
  by (simp add: toLowerByte_def Let_def)

lemma computeBleu_lowered:
  assumes "\<forall>s. ToLower u (ToLower u s) = ToLower u s"
  shows "computeBleu u sched (map (ToLower u) candidate) (map (map (ToLower u)) references)
           weights smoothing =
         computeBleu u sched candidate references weights smoothing"
proof -
  have "map (ToLower u) (map (ToLower u) s) = map (ToLower u) s" for s
    using assms by simp
  moreover have "map (map (ToLower u)) (map (map (ToLower u)) rs) = map (map (ToLower u)) rs" for rs
    using assms by simp
  ultimately show ?thesis by (simp only: computeBleu_scoreOf)
qed

text \<open>The loop over the weights, in closed form.\<close>

lemma logSum_fold:
  "foldl (\<lambda>(s, overlap) i.
              if ps ! i > 0 then (s + weights ! i * ln (ps ! i), overlap + 1) else (s, overlap))
         (s0, o0 :: int) xs =
     (s0 + (\<Sum>i\<leftarrow>filter (\<lambda>i. ps ! i > 0) xs. weights ! i * ln (ps ! i)),
      o0 + int (length (filter (\<lambda>i. ps ! i > 0) xs)))"
  by (induction xs arbitrary: s0 o0) simp_all

lemma logSum_closed:
  "logSum weights ps =
     ((\<Sum>i\<leftarrow>filter (\<lambda>i. ps ! i > 0) [0..<length weights]. weights ! i * ln (ps ! i)),
      int (length (filter (\<lambda>i. ps ! i > 0) [0..<length weights])))"
  by (simp add: logSum_def Let_def logSum_fold)

lemma logSum_no_overlap:
  assumes "\<forall>i<length weights. ps ! i \<le> 0"
  shows "logSum weights ps = (0, 0)"
proof -
  have "filter (\<lambda>i. ps ! i > 0) [0..<length weights] = []"
    using assms by (auto simp: filter_empty_conv not_less)
  then show ?thesis by (simp add: logSum_closed)
qed

lemma logSum_overlap:
  assumes "i < length weights" and "ps ! i > 0"
  shows "snd (logSum weights ps) \<noteq> 0"
proof -
  have "i \<in> set (filter (\<lambda>i. ps ! i > 0) [0..<length weights])"
    using assms by simp
  then have "filter (\<lambda>i. ps ! i > 0) [0..<length weights] \<noteq> []"
    by (metis empty_iff list.set(1))
  then show ?thesis by (simp add: logSum_closed)
qed

lemma scoreOf_no_overlap:
  assumes "\<forall>i<length weights. ps ! i \<le> 0"
  shows "scoreOf candidate references weights ps = Inr (Fin 0)"
  by (simp add: scoreOf_def logSum_no_overlap [OF assms])

subsection \<open>Facts for the claims on the score\<close>

lemma brevityPenalty_equal_length:
  "brevityPenalty [''garlic'', ''mushrooms''] [[''garlic'', ''mushrooms'']] = Inr (Fin 1)"
  by (simp add: brevityPenalty_def closest_def closestStep_def abs_go_def fdiv_def math_Exp_def
      Overflow_def Underflow_def)

lemma refMax_disjoint:
  assumes "\<forall>r\<in>set references. g \<notin> set (getNgrams r n)"
  shows "refMax references n g = 0"
proof (cases "references = []")
  case True
  then show ?thesis by (simp add: refMax_def)
next
  case False
  then obtain r rs where "references = r # rs" by (cases references) auto
  then have "(\<lambda>reference. int (count_list (getNgrams reference n) g)) ` set references = {0}"
    using assms by (auto simp: count_list_0_iff)
  then show ?thesis using False by (simp add: refMax_def)
qed

lemma spec_precision_disjoint:
  assumes "\<forall>r\<in>set references. set (getNgrams candidate n) \<inter> set (getNgrams r n) = {}"
  shows "spec_precision candidate references n False = 0"
proof -
  have "refMax references n g = 0" if "g \<in> set (getNgrams candidate n)" for g
    using assms that by (intro refMax_disjoint) auto
  then have "(\<Sum>g\<in>set (getNgrams candidate n).
      min (int (count_list (getNgrams candidate n) g)) (refMax references n g)) = 0"
    by simp
  then show ?thesis by (simp add: spec_precision_def Let_def del: of_int_sum)
qed

lemma modifiedPrecision_empty: "modifiedPrecision ord [] references (Suc i) smoothing = 0"
  by (simp add: modifiedPrecision_def getNgrams_def)

lemma precisions_empty:
  "precisions sched [] references k smoothing = replicate k 0"
  by (simp add: precisions_def modifiedPrecision_empty map_replicate_const)

lemma keyPrecision_smooth_pos:
  "0 < keyPrecision candidate references n True"
proof -
  have nn: "0 \<le> keyMax references n k" for k
  proof (cases "references = []")
    case True
    then show ?thesis by (simp add: keyMax_def)
  next
    case False
    then obtain r where "r \<in> set references" by (cases references) auto
    then have "int (count_list (keysOf (getNgrams r n)) k) \<le> keyMax references n k"
      using False by (simp add: keyMax_def)
    then show ?thesis by linarith
  qed
  have "0 \<le> (\<Sum>k\<in>set (keysOf (getNgrams candidate n)).
      min (int (count_list (keysOf (getNgrams candidate n)) k)) (keyMax references n k))"
    by (intro sum_nonneg) (simp add: nn)
  then show ?thesis
    by (simp add: keyPrecision_def Let_def add_pos_nonneg divide_pos_pos add_nonneg_pos
        del: of_int_sum)
qed

subsection \<open>The stand-in for the Unicode path\<close>

lemma sampleLower_valid: "validUTF8 (sampleLower s)"
  by (simp add: sampleLower_def between_def)

lemma sampleLower_fixed: "validUTF8 s \<Longrightarrow> s \<noteq> [CHR 0xC3, CHR 0x89] \<Longrightarrow> sampleLower s = s"
  by (simp add: sampleLower_def)

lemma ToLower_ascii_idem:
  assumes "isASCII s"
  shows "ToLower u (ToLower u s) = ToLower u s"
  using assms by (simp add: ToLower_def isASCII_toLower toLowerByte_idem)

lemma ToLower_sampleLower_idem: "ToLower sampleLower (ToLower sampleLower s) = ToLower sampleLower s"
proof (cases "isASCII s")
  case True
  then show ?thesis by (rule ToLower_ascii_idem)
next
  case False
  then have l: "ToLower sampleLower s = sampleLower s" by (simp add: ToLower_def)
  have "ToLower sampleLower (sampleLower s) = sampleLower s"
  proof (cases "isASCII (sampleLower s)")
    case True
    then have a: "isASCII s"
      using False by (simp add: sampleLower_def isASCII_def split: if_splits)
    with False show ?thesis by simp
  next
    case nascii: False
    have "sampleLower (sampleLower s) = sampleLower s"
      by (simp add: sampleLower_def between_def)
    with nascii show ?thesis by (simp add: ToLower_def)
  qed
  with l show ?thesis by simp
qed

subsection \<open>Numeric bounds\<close>

lemma Underflow_less: "Underflow < - 3"
  by (simp add: Underflow_def)

lemma Overflow_pos: "0 < Overflow"
  by (simp add: Overflow_def)

lemma exp_minus_three: "exp (- 3 :: real) \<le> 1 / 4"
proof -
  have "(1 :: real) + 3 \<le> exp 3" by (rule exp_ge_add_one_self)
  then have "1 / exp (3 :: real) \<le> 1 / 4"
    by (intro divide_left_mono) simp_all
  then show ?thesis by (simp add: exp_minus inverse_eq_divide)
qed

lemma math_Exp_value:
  assumes "exp s = y" and "1 / 4 < y" and "y \<le> 1"
  shows "math_Exp s = Fin y"
proof -
  have "s \<le> 0" using assms(1,3) by (metis exp_le_one_iff)
  then have up: "\<not> Overflow < s" using Overflow_pos by linarith
  have "\<not> s < Underflow"
  proof
    assume "s < Underflow"
    then have "s < - 3" using Underflow_less by linarith
    then have "exp s < exp (- 3)" by simp
    with exp_minus_three assms(1,2) show False by linarith
  qed
  with up assms(1) show ?thesis by (simp add: math_Exp_def)
qed

lemma math_Exp_nonpos:
  assumes "x \<le> 0"
  shows "math_Exp x = Fin (if x < Underflow then 0 else exp x)"
  using assms Overflow_pos by (simp add: math_Exp_def)

lemma exp_minus_half_bounds:
  "(60651 / 100000 :: real) < exp (- 1 / 2)" "exp (- 1 / 2) < (60655 / 100000 :: real)"
proof -
  obtain t :: real where t: "\<bar>t\<bar> \<le> \<bar>- 1 / 2\<bar>"
    and e: "exp (- 1 / 2) = (\<Sum>m<6. ((- 1 / 2) ^ m) / fact m) + (exp t / fact 6) * (- 1 / 2) ^ 6"
    using Maclaurin_exp_le [of "- 1 / 2" 6] by blast
  have s: "(\<Sum>m<6. ((- 1 / 2 :: real) ^ m) / fact m) = 2329 / 3840"
    by (simp add: lessThan_nat_numeral fact_numeral power_one_over)
  have f: "(exp t / fact 6) * (- 1 / 2) ^ 6 = exp t / 46080"
    by (simp add: fact_numeral power_one_over)
  have "t \<le> 1 / 2" using t by simp
  then have "exp t \<le> exp (1 / 2)" by simp
  also have "exp (1 / 2 :: real) \<le> 1 + 1 / 2 + (1 / 2)\<^sup>2"
    by (rule exp_bound) simp_all
  finally have up: "exp t \<le> 7 / 4" by (simp add: power2_eq_square)
  have lo: "0 < exp t" by simp
  have eq: "exp (- 1 / 2 :: real) = 2329 / 3840 + exp t / 46080"
    using e by (simp only: s f)
  show "(60651 / 100000 :: real) < exp (- 1 / 2)"
    using lo unfolding eq by linarith
  show "exp (- 1 / 2) < (60655 / 100000 :: real)"
    using up unfolding eq by linarith
qed

lemma sqrt_tenth_bounds:
  "(3162 / 10000 :: real) < sqrt (1 / 10)" "sqrt (1 / 10) < (3163 / 10000 :: real)"
proof -
  show "(3162 / 10000 :: real) < sqrt (1 / 10)"
    by (rule real_less_rsqrt) (simp add: power2_eq_square)
  show "sqrt (1 / 10) < (3163 / 10000 :: real)"
    by (rule real_less_lsqrt) (simp_all add: power2_eq_square)
qed

lemma exp_half_ln: "0 < x \<Longrightarrow> exp (ln x / 2) = sqrt x"
proof -
  assume x: "0 < x"
  then have "ln (sqrt x) = ln x / 2" by (simp add: ln_sqrt)
  then have "exp (ln x / 2) = exp (ln (sqrt x))" by simp
  also have "\<dots> = sqrt x" using x by simp
  finally show ?thesis .
qed

lemma smooth_log_sum: "exp (1 / 2 * ln (2 / 5) + 1 / 2 * ln (1 / 4) :: real) = sqrt (1 / 10)"
proof -
  have "ln (2 / 5 :: real) + ln (1 / 4) = ln (2 / 5 * (1 / 4))"
    by (rule ln_mult_pos [symmetric]) simp_all
  then have "1 / 2 * ln (2 / 5) + 1 / 2 * ln (1 / 4 :: real) = ln (1 / 10) / 2"
    by simp
  then show ?thesis by (simp only: exp_half_ln [of "1 / 10"] zero_less_divide_1_iff zero_less_numeral)
qed

lemma compute_log_sum: "exp (1 / 2 * ln (1 / 4) :: real) = 1 / 2"
proof -
  have "exp (ln (1 / 4) / 2 :: real) = sqrt (1 / 4)"
    by (rule exp_half_ln) simp
  also have "\<dots> = 1 / 2" by (simp add: real_sqrt_divide)
  finally show ?thesis by simp
qed

lemma ratio_ge_one:
  assumes "0 < c" and "c \<le> r"
  shows "1 - real r / real c \<le> 0"
  using assms by simp

lemma penalty_less_one:
  assumes "0 < c" and "c < r"
  shows "(if 1 - real r / real c < Underflow then 0 else exp (1 - real r / real c)) < 1"
proof -
  have "1 < real r / real c" using assms by simp
  then show ?thesis by simp
qed

lemma ratio_mono:
  assumes "0 < c'" and "c' < c" and "c \<le> r"
  shows "1 - real r / real c' < 1 - real r / real c"
proof -
  have r: "0 < real r" using assms by simp
  have "real r / real c < real r / real c'"
    using assms r by (intro divide_strict_left_mono) simp_all
  then show ?thesis by simp
qed

subsection \<open>The worked example of the smoothed score\<close>

lemma valid_insertion_sched: "valid_sched insertion_sched"
  by (simp add: valid_sched_def valid_order_def insertion_order_def insertion_sched_def)

lemma artichoke_lower:
  "map (ToLower u) [''artichokes'', ''with'', ''the'', ''butter''] =
     [''artichokes'', ''with'', ''the'', ''butter'']"
  "map (map (ToLower u)) [[''hearts'', ''of'', ''artichoke'', ''in'', ''butter'', ''sauce'']] =
     [[''hearts'', ''of'', ''artichoke'', ''in'', ''butter'', ''sauce'']]"
  by (simp_all add: ToLower_def isASCII_def toLowerByte_def)

lemma artichoke_precisions:
  "closedPrecisions [''artichokes'', ''with'', ''the'', ''butter'']
     [[''hearts'', ''of'', ''artichoke'', ''in'', ''butter'', ''sauce'']] 2 True = [2 / 5, 1 / 4]"
  "closedPrecisions [''artichokes'', ''with'', ''the'', ''butter'']
     [[''hearts'', ''of'', ''artichoke'', ''in'', ''butter'', ''sauce'']] 2 False = [1 / 4, 0]"
  by code_simp+

lemma artichoke_penalty:
  "brevityPenalty [''artichokes'', ''with'', ''the'', ''butter'']
     [[''hearts'', ''of'', ''artichoke'', ''in'', ''butter'', ''sauce'']] = Inr (Fin (exp (- 1 / 2)))"
  by (simp add: brevityPenalty_def closest_def closestStep_def abs_go_def fdiv_def math_Exp_def
      Overflow_def Underflow_def)

lemma artichoke_logSum:
  "logSum [1 / 2, 1 / 2] [2 / 5, 1 / 4] = (1 / 2 * ln (2 / 5) + 1 / 2 * ln (1 / 4), 2)"
  "logSum [1 / 2, 1 / 2] [1 / 4, 0] = (1 / 2 * ln (1 / 4), 1)"
  by (simp_all add: logSum_def)

lemma two_weights: "length [1 / 2, 1 / 2 :: real] = 2"
  by simp

lemma artichoke_Smooth:
  assumes "valid_sched sched"
  shows "Smooth u sched [''artichokes'', ''with'', ''the'', ''butter'']
           [[''hearts'', ''of'', ''artichoke'', ''in'', ''butter'', ''sauce'']] [1 / 2, 1 / 2] =
         Inr (Fin (exp (- 1 / 2) * sqrt (1 / 10)))"
proof -
  have "math_Exp (1 / 2 * ln (2 / 5) + 1 / 2 * ln (1 / 4)) = Fin (sqrt (1 / 10))"
    using smooth_log_sum sqrt_tenth_bounds by (intro math_Exp_value) simp_all
  then show ?thesis
    unfolding Smooth_def computeBleu_closed [OF assms] artichoke_lower two_weights
      artichoke_precisions scoreOf_def artichoke_logSum
    by (simp only: prod.case artichoke_penalty sum.case fmul.simps) simp
qed

lemma artichoke_Compute:
  assumes "valid_sched sched"
  shows "Compute u sched [''artichokes'', ''with'', ''the'', ''butter'']
           [[''hearts'', ''of'', ''artichoke'', ''in'', ''butter'', ''sauce'']] [1 / 2, 1 / 2] =
         Inr (Fin (exp (- 1 / 2) / 2))"
proof -
  have "math_Exp (1 / 2 * ln (1 / 4)) = Fin (1 / 2)"
    using compute_log_sum by (intro math_Exp_value) simp_all
  then show ?thesis
    unfolding Compute_def computeBleu_closed [OF assms] artichoke_lower two_weights
      artichoke_precisions scoreOf_def artichoke_logSum
    by (simp only: prod.case artichoke_penalty sum.case fmul.simps) simp
qed

lemma smooth_value_bounds:
  "(19177 / 100000 :: real) < exp (- 1 / 2) * sqrt (1 / 10)"
  "exp (- 1 / 2) * sqrt (1 / 10) < (19186 / 100000 :: real)"
proof -
  have "(19177 / 100000 :: real) < 60651 / 100000 * (3162 / 10000)" by simp
  also have "\<dots> < exp (- 1 / 2) * sqrt (1 / 10)"
    by (intro mult_strict_mono exp_minus_half_bounds sqrt_tenth_bounds) simp_all
  finally show "(19177 / 100000 :: real) < exp (- 1 / 2) * sqrt (1 / 10)" .
  have "exp (- 1 / 2) * sqrt (1 / 10) < (60655 / 100000 :: real) * (3163 / 10000)"
    by (intro mult_strict_mono exp_minus_half_bounds sqrt_tenth_bounds) simp_all
  also have "\<dots> < 19186 / 100000" by simp
  finally show "exp (- 1 / 2) * sqrt (1 / 10) < (19186 / 100000 :: real)" .
qed

subsection \<open>The model on the cases of the repository's tests\<close>

text \<open>
  The cases of \<^verbatim>\<open>TestModifiedPrecision\<close> and \<^verbatim>\<open>TestBrevityPenalty\<close> and the first case
  of \<^verbatim>\<open>TestBLEUScore\<close>, run on the model with the maps visited as they were filled and
  in reverse.
\<close>

lemma test_precision_cat_mat:
  "modifiedPrecision insertion_order [''cat'', ''mat''] [[''cat'', ''on'', ''the'', ''mat'']] 1 False = 1"
  "modifiedPrecision insertion_order [''cat'', ''mat''] [[''cat'', ''on'', ''the'', ''mat'']] 2 False = 0"
  "modifiedPrecision reverse_order [''cat'', ''mat''] [[''cat'', ''on'', ''the'', ''mat'']] 1 False = 1"
  by code_simp+

lemma test_precision_the:
  "modifiedPrecision insertion_order [''the'', ''the'', ''the'', ''the'', ''the'', ''the'', ''the'']
     [[''the'', ''cat'', ''is'', ''on'', ''the'', ''mat''],
      [''there'', ''is'', ''a'', ''cat'', ''on'', ''the'', ''mat'']] 1 False = 2 / 7"
  "modifiedPrecision reverse_order [''the'', ''the'', ''the'', ''the'', ''the'', ''the'', ''the'']
     [[''the'', ''cat'', ''is'', ''on'', ''the'', ''mat''],
      [''there'', ''is'', ''a'', ''cat'', ''on'', ''the'', ''mat'']] 2 False = 0"
  by code_simp+

lemma test_penalty_cat_mat:
  "brevityPenalty [''cat'', ''mat''] [[''cat'', ''on'', ''the'', ''mat'']] = Inr (Fin (exp (- 1)))"
  by (simp add: brevityPenalty_def closest_def closestStep_def abs_go_def fdiv_def math_Exp_def
      Overflow_def Underflow_def)

lemma test_penalty_three:
  "brevityPenalty [''a'', ''b'', ''c''] [[''a'', ''b'', ''c'', ''d'', ''e''], [''a'']] =
     Inr (Fin (exp (1 - 5 / 3)))"
  by (simp add: brevityPenalty_def closest_def closestStep_def abs_go_def fdiv_def math_Exp_def
      Overflow_def Underflow_def)

lemma test_closest_twelve: "closest 12 [13, 2] = (0, 1)"
  by code_simp

lemma test_penalty_empty_candidate:
  "brevityPenalty [] [[''a'']] = Inr (Fin 0)" "brevityPenalty [] [[]] = Inr NaN"
  by (simp_all add: brevityPenalty_def closest_def closestStep_def abs_go_def fdiv_def)

lemma test_score_cat_mat:
  "Compute u insertion_sched [''cat'', ''mat''] [[''cat'', ''on'', ''the'', ''mat'']] [1 / 2, 1 / 2] =
     Inr (Fin (exp (- 1)))"
proof -
  have lc: "map (ToLower u) [''cat'', ''mat''] = [''cat'', ''mat'']"
    and lr: "map (map (ToLower u)) [[''cat'', ''on'', ''the'', ''mat'']] =
      [[''cat'', ''on'', ''the'', ''mat'']]"
    by (simp_all add: ToLower_def isASCII_def toLowerByte_def)
  have ps: "precisions insertion_sched [''cat'', ''mat''] [[''cat'', ''on'', ''the'', ''mat'']] 2 False =
      [1, 0]"
    by code_simp
  have len: "length [1 / 2, 1 / 2 :: real] = 2" by simp
  have ls: "logSum [1 / 2, 1 / 2] [1, 0] = (0, 1)"
    by (simp add: logSum_def)
  have e: "math_Exp 0 = Fin 1"
    by (simp add: math_Exp_def Overflow_def Underflow_def)
  show ?thesis
    unfolding Compute_def computeBleu_scoreOf lc lr len ps scoreOf_def ls
    by (simp add: test_penalty_cat_mat e)
qed

text \<open>
  Tokens outside ASCII. The JSON text of the byte FF and of the byte FE is the same, so
  the two tokens are one key. A token that only the Unicode path lower-cases matches its
  lower-case form.
\<close>

lemma test_key_collision:
  "phraseString [[CHR 0xFF]] = phraseString [[CHR 0xFE]]"
  "phraseString [[CHR 0xC3, CHR 0x89]] \<noteq> phraseString [[CHR 0xC3, CHR 0xA9]]"
  by code_simp+

lemma test_precision_invalid_bytes:
  "modifiedPrecision insertion_order [[CHR 0xFF]] [[[CHR 0xFE]]] 1 False = 1"
  by code_simp

lemma test_ToLower_unicode:
  "ToLower sampleLower [CHR 0xC3, CHR 0x89] = [CHR 0xC3, CHR 0xA9]"
  "ToLower sampleLower ''Cat'' = ''cat''"
  by code_simp+

lemma test_penalty_underflow:
  "brevityPenalty [''a'', ''b''] [replicate 2000 ''a''] = Inr (Fin 0)"
  "brevityPenalty [''a''] [replicate 2000 ''a''] = Inr (Fin 0)"
  by (simp_all add: brevityPenalty_def closest_def closestStep_def abs_go_def fdiv_def math_Exp_def
      Overflow_def Underflow_def)

section \<open>The claims\<close>

subsection \<open>Modified precision\<close>

text \<open>
  C2 (amended). For a candidate with at least \<open>n\<close> tokens and any list of references,
  all tokens valid UTF-8, under every order in which the maps are visited,
  \<^verbatim>\<open>modifiedPrecision\<close> of order \<open>n\<close> is the sum over the distinct candidate n-grams of
  the smaller of the candidate count and the largest count in a single reference, over
  the number of candidate n-grams; with smoothing, 1 is added to the numerator and to the
  denominator of every order. (The maps are keyed by the JSON text of the n-gram, which
  tells n-grams of valid UTF-8 tokens apart.)
\<close>

theorem modifiedPrecision_formula:
  assumes "valid_order ord" and "n \<le> length candidate"
    and "list_all validUTF8 candidate" and "list_all (list_all validUTF8) references"
  shows "modifiedPrecision ord candidate references n smoothing =
           spec_precision candidate references n smoothing"
  using assms
  by (simp add: modifiedPrecision_closed getNgrams_nonempty keyPrecision_valid)

theorem modifiedPrecision_formula_witness:
  "valid_order insertion_order \<and>
   (1::nat) \<le> length [''the'', ''the'', ''the'', ''cat''] \<and>
   list_all validUTF8 [''the'', ''the'', ''the'', ''cat''] \<and>
   list_all (list_all validUTF8) [[''the'', ''cat''], [''the'', ''the'', ''dog'']] \<and>
   modifiedPrecision insertion_order [''the'', ''the'', ''the'', ''cat'']
     [[''the'', ''cat''], [''the'', ''the'', ''dog'']] 1 True = 4 / 5"
proof -
  have v: "valid_order insertion_order"
    by (simp add: valid_order_def insertion_order_def)
  have l: "(1::nat) \<le> length [''the'', ''the'', ''the'', ''cat'']"
    by simp
  have c: "list_all validUTF8 [''the'', ''the'', ''the'', ''cat'']"
    by simp
  have r: "list_all (list_all validUTF8) [[''the'', ''cat''], [''the'', ''the'', ''dog'']]"
    by simp
  have "spec_precision [''the'', ''the'', ''the'', ''cat'']
     [[''the'', ''cat''], [''the'', ''the'', ''dog'']] 1 True = 4 / 5"
    by code_simp
  with modifiedPrecision_formula [OF v l c r, of True]
  show ?thesis using v c r by simp
qed

text \<open>
  The claim as it was worded, for every candidate: the two tokens of one byte each, FF
  and FE, are different n-grams, so the formula gives 0; they have the same JSON text,
  so \<^verbatim>\<open>modifiedPrecision\<close> gives 1.
\<close>

theorem modifiedPrecision_formula_counterexample:
  "modifiedPrecision insertion_order [[CHR 0xFF]] [[[CHR 0xFE]]] 1 False \<noteq>
     spec_precision [[CHR 0xFF]] [[[CHR 0xFE]]] 1 False \<and>
   modifiedPrecision insertion_order [[CHR 0xFF]] [[[CHR 0xFE]]] 1 False = 1 \<and>
   spec_precision [[CHR 0xFF]] [[[CHR 0xFE]]] 1 False = 0"
proof -
  have a: "modifiedPrecision insertion_order [[CHR 0xFF]] [[[CHR 0xFE]]] 1 False = 1"
    by (rule test_precision_invalid_bytes)
  have b: "spec_precision [[CHR 0xFF]] [[[CHR 0xFE]]] 1 False = 0"
    by code_simp
  show ?thesis unfolding a b by simp
qed

subsection \<open>Brevity penalty\<close>

text \<open>
  C4. For a candidate of length \<open>c > 0\<close> and a list of references that is not empty,
  \<^verbatim>\<open>brevityPenalty\<close> takes the reference whose length is closest to \<open>c\<close>, the first
  such reference in the list; with \<open>r\<close> its length, the penalty is 1 when \<open>c > r\<close> and
  \<^verbatim>\<open>math.Exp(1 - r/c)\<close> otherwise, also when \<open>c = r\<close>: the exponential of \<open>1 - r / c\<close>,
  and 0 where \<open>1 - r / c\<close> is below the underflow bound of \<^verbatim>\<open>math.Exp\<close>.
\<close>

theorem brevityPenalty_selects_closest:
  assumes "candidate \<noteq> []" and "references \<noteq> []"
  shows "\<exists>i. closest_first (int (length candidate)) (map (\<lambda>r. int (length r)) references) i \<and>
             brevityPenalty candidate references =
               Inr (if int (length candidate) > int (length (references ! i)) then Fin 1
                    else math_Exp (1 - real (length (references ! i)) / real (length candidate))) \<and>
             brevityPenalty candidate references =
               Inr (Fin (if int (length candidate) > int (length (references ! i)) then 1
                         else if 1 - real (length (references ! i)) / real (length candidate)
                                   < Underflow then 0
                         else exp (1 - real (length (references ! i)) / real (length candidate))))"
proof -
  let ?c = "int (length candidate)"
  let ?lens = "map (\<lambda>r. int (length r)) references"
  from assms(2) have "?lens \<noteq> []" by simp
  then have cf: "closest_first ?c ?lens (fst (closest ?c ?lens))"
    by (rule closest_closest_first)
  let ?i = "fst (closest ?c ?lens)"
  have bp: "brevityPenalty candidate references =
      Inr (if ?c > int (length (references ! ?i)) then Fin 1
           else math_Exp (1 - real (length (references ! ?i)) / real (length candidate)))"
    by (rule brevityPenalty_closed [OF assms(1) cf])
  have c: "0 < length candidate" using assms(1) by simp
  have "math_Exp (1 - real (length (references ! ?i)) / real (length candidate)) =
      Fin (if 1 - real (length (references ! ?i)) / real (length candidate) < Underflow then 0
           else exp (1 - real (length (references ! ?i)) / real (length candidate)))"
    if "\<not> ?c > int (length (references ! ?i))"
    using that c by (intro math_Exp_nonpos ratio_ge_one) simp_all
  with bp have "brevityPenalty candidate references =
      Inr (Fin (if ?c > int (length (references ! ?i)) then 1
                else if 1 - real (length (references ! ?i)) / real (length candidate) < Underflow
                then 0
                else exp (1 - real (length (references ! ?i)) / real (length candidate))))"
    by (simp split: if_splits)
  with bp cf show ?thesis by blast
qed

theorem brevityPenalty_selects_closest_witness:
  "[''a'', ''b'', ''c''] \<noteq> [] \<and> [[''a'', ''b'', ''c'', ''d'', ''e''], [''a'']] \<noteq> [] \<and>
   brevityPenalty [''a'', ''b'', ''c''] [[''a'', ''b'', ''c'', ''d'', ''e''], [''a'']] =
     Inr (Fin (exp (1 - 5 / 3)))"
proof -
  have c: "[''a'', ''b'', ''c''] \<noteq> []" and r: "[[''a'', ''b'', ''c'', ''d'', ''e''], [''a'']] \<noteq> []"
    by simp_all
  have z: "closest_first 3 [5, 1] 0"
    by (simp add: closest_first_def less_Suc_eq)
  from brevityPenalty_selects_closest [OF c r]
  obtain i where i: "closest_first 3 [5, 1] i"
    and bp: "brevityPenalty [''a'', ''b'', ''c''] [[''a'', ''b'', ''c'', ''d'', ''e''], [''a'']] =
      Inr (if int (length [''a'', ''b'', ''c'']) >
                  int (length ([[''a'', ''b'', ''c'', ''d'', ''e''], [''a'']] ! i)) then Fin 1
           else math_Exp (1 - real (length ([[''a'', ''b'', ''c'', ''d'', ''e''], [''a'']] ! i))
                           / real (length [''a'', ''b'', ''c''])))"
    by auto
  from i z have "i = 0" by (rule closest_first_unique)
  with bp z show ?thesis by (simp add: math_Exp_def Overflow_def Underflow_def)
qed

text \<open>
  C8 (amended). For a candidate that is not empty, with \<open>r\<close> the length of the first
  closest reference: a longer candidate has penalty 1; a shorter candidate has a penalty
  below 1; and of two candidates no longer than the same \<open>r\<close>, the shorter one, whose gap
  \<open>r - c\<close> is larger, has a penalty that is not larger, and strictly smaller as long as
  \<open>1 - r / c\<close> of the longer one is at least -708, where \<^verbatim>\<open>math.Exp\<close> still returns a
  normal \<^verbatim>\<open>float64\<close>. Further down the results of \<^verbatim>\<open>math.Exp\<close> are subnormal and then
  exactly 0, and the penalties of two candidates coincide.
\<close>

theorem brevityPenalty_boundary:
  assumes "candidate \<noteq> []"
    and "closest_first (int (length candidate)) (map (\<lambda>r. int (length r)) references) i"
  shows "(length candidate > length (references ! i) \<longrightarrow>
            brevityPenalty candidate references = Inr (Fin 1)) \<and>
         (length candidate < length (references ! i) \<longrightarrow>
            (\<exists>p. brevityPenalty candidate references = Inr (Fin p) \<and> p < 1)) \<and>
         (\<forall>candidate' references' i'.
            candidate' \<noteq> [] \<and>
            closest_first (int (length candidate')) (map (\<lambda>r. int (length r)) references') i' \<and>
            length (references' ! i') = length (references ! i) \<and>
            length candidate' < length candidate \<and>
            length candidate \<le> length (references ! i) \<longrightarrow>
            (\<exists>p p'. brevityPenalty candidate references = Inr (Fin p) \<and>
                    brevityPenalty candidate' references' = Inr (Fin p') \<and>
                    p' \<le> p \<and>
                    (- 708 \<le> 1 - real (length (references ! i)) / real (length candidate) \<longrightarrow>
                       p' < p)))"
proof (intro conjI allI impI)
  assume "length candidate > length (references ! i)"
  then show "brevityPenalty candidate references = Inr (Fin 1)"
    by (simp add: brevityPenalty_closed [OF assms])
next
  assume less: "length candidate < length (references ! i)"
  have c: "0 < length candidate" using assms(1) by simp
  let ?x = "1 - real (length (references ! i)) / real (length candidate)"
  have "?x \<le> 0" using c less by (intro ratio_ge_one) simp_all
  then have "math_Exp ?x = Fin (if ?x < Underflow then 0 else exp ?x)"
    by (rule math_Exp_nonpos)
  then have "brevityPenalty candidate references =
      Inr (Fin (if ?x < Underflow then 0 else exp ?x))"
    using less by (simp add: brevityPenalty_closed [OF assms])
  moreover have "(if ?x < Underflow then 0 else exp ?x) < 1"
    using c less by (rule penalty_less_one)
  ultimately show "\<exists>p. brevityPenalty candidate references = Inr (Fin p) \<and> p < 1"
    by blast
next
  fix candidate' :: Sentence and references' :: "Sentence list" and i' :: nat
  assume a: "candidate' \<noteq> [] \<and>
            closest_first (int (length candidate')) (map (\<lambda>r. int (length r)) references') i' \<and>
            length (references' ! i') = length (references ! i) \<and>
            length candidate' < length candidate \<and>
            length candidate \<le> length (references ! i)"
  then have c': "candidate' \<noteq> []"
    and cf': "closest_first (int (length candidate')) (map (\<lambda>r. int (length r)) references') i'"
    and r: "length (references' ! i') = length (references ! i)"
    and lt: "length candidate' < length candidate"
    and le: "length candidate \<le> length (references ! i)"
    by simp_all
  have pos: "0 < length candidate'" using c' by simp
  have c: "0 < length candidate" using assms(1) by simp
  let ?x = "1 - real (length (references ! i)) / real (length candidate)"
  let ?x' = "1 - real (length (references ! i)) / real (length candidate')"
  let ?p = "if ?x < Underflow then 0 else exp ?x"
  let ?p' = "if ?x' < Underflow then 0 else exp ?x'"
  have x: "?x \<le> 0" using c le by (rule ratio_ge_one)
  have xx: "?x' < ?x" using pos lt le by (rule ratio_mono)
  have x': "?x' \<le> 0" using x xx by linarith
  have "brevityPenalty candidate references = Inr (Fin ?p)"
    using le math_Exp_nonpos [OF x] by (simp add: brevityPenalty_closed [OF assms])
  moreover have "brevityPenalty candidate' references' = Inr (Fin ?p')"
    using le lt r math_Exp_nonpos [OF x'] by (simp add: brevityPenalty_closed [OF c' cf'])
  moreover have "?p' \<le> ?p" using xx by simp
  moreover have "- 708 \<le> ?x \<longrightarrow> ?p' < ?p"
    using xx by (simp add: Underflow_def split: if_splits)
  ultimately show "\<exists>p p'. brevityPenalty candidate references = Inr (Fin p) \<and>
                    brevityPenalty candidate' references' = Inr (Fin p') \<and>
                    p' \<le> p \<and> (- 708 \<le> ?x \<longrightarrow> p' < p)"
    by blast
qed

theorem brevityPenalty_boundary_witness:
  "brevityPenalty [''a'', ''b'', ''c'', ''d'', ''e'', ''f''] [[''a'', ''b'', ''c'', ''d'', ''e''], [''a'']] =
     Inr (Fin 1) \<and>
   (\<exists>p p'. brevityPenalty [''a'', ''b'', ''c''] [[''a'', ''b'', ''c'', ''d'', ''e''], [''a'']] = Inr (Fin p) \<and>
      brevityPenalty [''a'', ''b''] [[''a'', ''b'', ''c'', ''d'', ''e'']] = Inr (Fin p') \<and>
      p' < p \<and> p < 1)"
proof -
  let ?refs = "[[''a'', ''b'', ''c'', ''d'', ''e''], [''a'']]"
  have c6: "[''a'', ''b'', ''c'', ''d'', ''e'', ''f''] \<noteq> []" and c3: "[''a'', ''b'', ''c''] \<noteq> []"
    by simp_all
  have cf6: "closest_first (int (length [''a'', ''b'', ''c'', ''d'', ''e'', ''f'']))
      (map (\<lambda>r. int (length r)) ?refs) 0"
    by (simp add: closest_first_def less_Suc_eq)
  have cf3: "closest_first (int (length [''a'', ''b'', ''c'']))
      (map (\<lambda>r. int (length r)) ?refs) 0"
    by (simp add: closest_first_def less_Suc_eq)
  have cf2: "closest_first (int (length [''a'', ''b'']))
      (map (\<lambda>r. int (length r)) [[''a'', ''b'', ''c'', ''d'', ''e'']]) 0"
    by (simp add: closest_first_def)
  from brevityPenalty_boundary [OF c6 cf6]
  have one: "brevityPenalty [''a'', ''b'', ''c'', ''d'', ''e'', ''f''] ?refs = Inr (Fin 1)"
    by simp
  from brevityPenalty_boundary [OF c3 cf3]
  obtain p where p: "brevityPenalty [''a'', ''b'', ''c''] ?refs = Inr (Fin p)" and p1: "p < 1"
    by auto
  have p0: "- 708 \<le> 1 - real (length (?refs ! 0)) / real (length [''a'', ''b'', ''c''])"
    by simp
  from brevityPenalty_boundary [OF c3 cf3]
  have "\<forall>candidate' references' i'.
            candidate' \<noteq> [] \<and>
            closest_first (int (length candidate')) (map (\<lambda>r. int (length r)) references') i' \<and>
            length (references' ! i') = length (?refs ! 0) \<and>
            length candidate' < length [''a'', ''b'', ''c''] \<and>
            length [''a'', ''b'', ''c''] \<le> length (?refs ! 0) \<longrightarrow>
            (\<exists>p p'. brevityPenalty [''a'', ''b'', ''c''] ?refs = Inr (Fin p) \<and>
                    brevityPenalty candidate' references' = Inr (Fin p') \<and>
                    p' \<le> p \<and>
                    (- 708 \<le> 1 - real (length (?refs ! 0)) / real (length [''a'', ''b'', ''c'']) \<longrightarrow>
                       p' < p))"
    by (elim conjE)
  then have "[''a'', ''b''] \<noteq> [] \<and>
            closest_first (int (length [''a'', ''b'']))
              (map (\<lambda>r. int (length r)) [[''a'', ''b'', ''c'', ''d'', ''e'']]) 0 \<and>
            length ([[''a'', ''b'', ''c'', ''d'', ''e'']] ! 0) = length (?refs ! 0) \<and>
            length [''a'', ''b''] < length [''a'', ''b'', ''c''] \<and>
            length [''a'', ''b'', ''c''] \<le> length (?refs ! 0) \<longrightarrow>
            (\<exists>p p'. brevityPenalty [''a'', ''b'', ''c''] ?refs = Inr (Fin p) \<and>
                    brevityPenalty [''a'', ''b''] [[''a'', ''b'', ''c'', ''d'', ''e'']] = Inr (Fin p') \<and>
                    p' \<le> p \<and>
                    (- 708 \<le> 1 - real (length (?refs ! 0)) / real (length [''a'', ''b'', ''c'']) \<longrightarrow>
                       p' < p))"
    by blast
  with cf2 obtain q q' where q: "brevityPenalty [''a'', ''b'', ''c''] ?refs = Inr (Fin q)"
    and "brevityPenalty [''a'', ''b''] [[''a'', ''b'', ''c'', ''d'', ''e'']] = Inr (Fin q')"
    and "q' < q"
    using p0 by auto
  with p p1 one show ?thesis by auto
qed

text \<open>
  The claim as it was worded, strictly decreasing: against a reference of 2000 tokens the
  candidates of 2 tokens and of 1 token both get the penalty 0, so the penalty of the
  shorter one is not strictly below.
\<close>

theorem brevityPenalty_boundary_counterexample:
  "\<not> strictly_below (brevityPenalty [''a''] [replicate 2000 ''a''])
                     (brevityPenalty [''a'', ''b''] [replicate 2000 ''a''])"
  by (simp add: test_penalty_underflow strictly_below_def)

subsection \<open>The score\<close>

text \<open>
  C1. The exact match: for the candidate \<open>garlic mushrooms\<close>, itself as the only
  reference and four weights 0.5, \<^verbatim>\<open>Compute\<close> returns 1 under every order of visiting
  the maps. The orders 3 and 4 ask for more tokens than the candidate has, their
  precision is 0 and they stay out of the sum of logarithms (two orders overlap), and
  the brevity penalty is 1, the two lengths being equal.
\<close>

theorem exact_match:
  assumes "valid_sched sched"
  shows "Compute u sched [''garlic'', ''mushrooms''] [[''garlic'', ''mushrooms'']]
           [1 / 2, 1 / 2, 1 / 2, 1 / 2] = Inr (Fin 1) \<and>
         approximately
           (Compute u sched [''garlic'', ''mushrooms''] [[''garlic'', ''mushrooms'']]
              [1 / 2, 1 / 2, 1 / 2, 1 / 2]) 1 (1 / 10000) \<and>
         precisions sched [''garlic'', ''mushrooms''] [[''garlic'', ''mushrooms'']] 4 False =
           [1, 1, 0, 0] \<and>
         logSum [1 / 2, 1 / 2, 1 / 2, 1 / 2] [1, 1, 0, 0] = (0, 2) \<and>
         brevityPenalty [''garlic'', ''mushrooms''] [[''garlic'', ''mushrooms'']] = Inr (Fin 1)"
proof -
  have lc: "map (ToLower u) [''garlic'', ''mushrooms''] = [''garlic'', ''mushrooms'']"
    by (simp add: ToLower_def isASCII_def toLowerByte_def)
  have lr: "map (map (ToLower u)) [[''garlic'', ''mushrooms'']] = [[''garlic'', ''mushrooms'']]"
    by (simp add: ToLower_def isASCII_def toLowerByte_def)
  have ps: "closedPrecisions [''garlic'', ''mushrooms''] [[''garlic'', ''mushrooms'']] 4 False =
      [1, 1, 0, 0]"
    by code_simp
  have ls: "logSum [1 / 2, 1 / 2, 1 / 2, 1 / 2] [1, 1, 0, 0] = (0, 2)"
    by (simp add: logSum_def)
  have len: "length [1 / 2, 1 / 2, 1 / 2, 1 / 2 :: real] = 4"
    by simp
  have e: "math_Exp 0 = Fin 1"
    by (simp add: math_Exp_def Overflow_def Underflow_def)
  have "Compute u sched [''garlic'', ''mushrooms''] [[''garlic'', ''mushrooms'']]
           [1 / 2, 1 / 2, 1 / 2, 1 / 2] = Inr (Fin 1)"
    unfolding Compute_def computeBleu_closed [OF assms] lc lr len ps scoreOf_def ls
    by (simp add: brevityPenalty_equal_length e)
  moreover have "approximately (Inr (Fin 1)) 1 (1 / 10000)"
    by (simp add: approximately_def)
  ultimately show ?thesis
    by (simp only: precisions_closed [OF assms] ps ls brevityPenalty_equal_length simp_thms)
qed

theorem exact_match_witness:
  "valid_sched (\<lambda>i. insertion_order) \<and>
   Compute sampleLower (\<lambda>i. insertion_order) [''garlic'', ''mushrooms'']
     [[''garlic'', ''mushrooms'']] [1 / 2, 1 / 2, 1 / 2, 1 / 2] = Inr (Fin 1)"
proof -
  have v: "valid_sched (\<lambda>i. insertion_order)"
    by (simp add: valid_sched_def valid_order_def insertion_order_def)
  from exact_match [OF v, of sampleLower] v show ?thesis by blast
qed

text \<open>
  C3. When no n-gram of the candidate, of any order from 1 to the number of weights,
  occurs in any reference (after lower-casing), every precision is 0, the overlap count
  is 0 and \<^verbatim>\<open>Compute\<close> returns 0: the brevity penalty is not asked for and no
  logarithm of 0 is taken. The Unicode path of \<^verbatim>\<open>strings.ToLower\<close> is any function that
  returns valid UTF-8, as \<^verbatim>\<open>strings.Map\<close> does.
\<close>

theorem total_mismatch:
  assumes "valid_sched sched"
    and "\<forall>s. validUTF8 (u s)"
    and "\<forall>n\<in>{1..length weights}. \<forall>r\<in>set references.
           set (getNgrams (map (ToLower u) candidate) n) \<inter>
           set (getNgrams (map (ToLower u) r) n) = {}"
  shows "Compute u sched candidate references weights = Inr (Fin 0) \<and>
         (\<forall>i<length weights.
            modifiedPrecision (sched i) (map (ToLower u) candidate) (map (map (ToLower u)) references)
              (i + 1) False = 0) \<and>
         snd (logSum weights
                (precisions sched (map (ToLower u) candidate) (map (map (ToLower u)) references)
                   (length weights) False)) = 0"
proof -
  let ?c = "map (ToLower u) candidate" and ?rs = "map (map (ToLower u)) references"
  have vc: "list_all validUTF8 ?c"
    using assms(2) by (simp add: list_all_iff validUTF8_ToLower)
  have vr: "list_all (list_all validUTF8) ?rs"
    using assms(2) by (simp add: list_all_iff validUTF8_ToLower)
  have "spec_precision ?c ?rs (Suc i) False = 0" if "i < length weights" for i
    using assms(3) that by (intro spec_precision_disjoint) auto
  then have zero: "keyPrecision ?c ?rs (Suc i) False = 0" if "i < length weights" for i
    using that by (simp add: keyPrecision_valid [OF vc vr])
  have v: "valid_order (sched i)" for i
    using assms(1) by (simp add: valid_sched_def)
  have ps: "\<forall>i<length weights. closedPrecisions ?c ?rs (length weights) False ! i \<le> 0"
    by (simp add: closedPrecisions_def zero)
  show ?thesis
    using zero
    by (simp add: Compute_def computeBleu_closed [OF assms(1)] scoreOf_no_overlap [OF ps]
        precisions_closed [OF assms(1)] logSum_no_overlap [OF ps] modifiedPrecision_closed [OF v])
qed

theorem total_mismatch_witness:
  "valid_sched (\<lambda>i. insertion_order) \<and>
   map (ToLower sampleLower) [[CHR 0xC3, CHR 0x89], ''Y''] = [[CHR 0xC3, CHR 0xA9], ''y''] \<and>
   Compute sampleLower (\<lambda>i. insertion_order) [[CHR 0xC3, CHR 0x89], ''Y'']
     [[''garlic'', ''mushrooms'']] [1 / 2, 1 / 2] = Inr (Fin 0)"
proof -
  have v: "valid_sched (\<lambda>i. insertion_order)"
    by (simp add: valid_sched_def valid_order_def insertion_order_def)
  have u: "\<forall>s. validUTF8 (sampleLower s)"
    by (simp add: sampleLower_valid)
  have l: "map (ToLower sampleLower) [[CHR 0xC3, CHR 0x89], ''Y''] = [[CHR 0xC3, CHR 0xA9], ''y'']"
    by code_simp
  have d: "\<forall>n\<in>{1..length [1 / 2, 1 / 2 :: real]}. \<forall>r\<in>set [[''garlic'', ''mushrooms'']].
           set (getNgrams (map (ToLower sampleLower) [[CHR 0xC3, CHR 0x89], ''Y'']) n) \<inter>
           set (getNgrams (map (ToLower sampleLower) r) n) = {}"
  proof (intro ballI)
    fix n r
    assume "n \<in> {1..length [1 / 2, 1 / 2 :: real]}" and "r \<in> set [[''garlic'', ''mushrooms'']]"
    then have n: "n = 1 \<or> n = 2" and r: "r = [''garlic'', ''mushrooms'']"
      by auto
    have "set (getNgrams (map (ToLower sampleLower) [[CHR 0xC3, CHR 0x89], ''Y'']) 1) \<inter>
          set (getNgrams (map (ToLower sampleLower) [''garlic'', ''mushrooms'']) 1) = {}"
      by code_simp
    moreover have "set (getNgrams (map (ToLower sampleLower) [[CHR 0xC3, CHR 0x89], ''Y'']) 2) \<inter>
          set (getNgrams (map (ToLower sampleLower) [''garlic'', ''mushrooms'']) 2) = {}"
      by code_simp
    ultimately show "set (getNgrams (map (ToLower sampleLower) [[CHR 0xC3, CHR 0x89], ''Y'']) n) \<inter>
          set (getNgrams (map (ToLower sampleLower) r) n) = {}"
      using n r by blast
  qed
  from total_mismatch [OF v u d]
  have "Compute sampleLower (\<lambda>i. insertion_order) [[CHR 0xC3, CHR 0x89], ''Y'']
     [[''garlic'', ''mushrooms'']] [1 / 2, 1 / 2] = Inr (Fin 0)"
    by (rule conjunct1)
  with v l show ?thesis by (intro conjI)
qed

text \<open>
  C5 (amended). On the candidate \<open>artichokes with the butter\<close> and the reference
  \<open>hearts of artichoke in butter sauce\<close> with weights 0.5 and 0.5, \<^verbatim>\<open>Smooth\<close>
  returns \<open>exp (- 1 / 2) * sqrt (1 / 10)\<close>, about 0.1918: the smoothed precisions are
  2/5 and 1/4. The value 0.3033 is \<open>exp (- 1 / 2) / 2\<close>, the score \<^verbatim>\<open>Compute\<close> returns
  on this input.
\<close>

theorem smooth_worked_example:
  assumes "valid_sched sched"
  shows "Smooth u sched [''artichokes'', ''with'', ''the'', ''butter'']
           [[''hearts'', ''of'', ''artichoke'', ''in'', ''butter'', ''sauce'']] [1 / 2, 1 / 2] =
           Inr (Fin (exp (- 1 / 2) * sqrt (1 / 10))) \<and>
         approximately
           (Smooth u sched [''artichokes'', ''with'', ''the'', ''butter'']
              [[''hearts'', ''of'', ''artichoke'', ''in'', ''butter'', ''sauce'']] [1 / 2, 1 / 2])
           (1918 / 10000) (1 / 10000) \<and>
         Compute u sched [''artichokes'', ''with'', ''the'', ''butter'']
           [[''hearts'', ''of'', ''artichoke'', ''in'', ''butter'', ''sauce'']] [1 / 2, 1 / 2] =
           Inr (Fin (exp (- 1 / 2) / 2)) \<and>
         approximately
           (Compute u sched [''artichokes'', ''with'', ''the'', ''butter'']
              [[''hearts'', ''of'', ''artichoke'', ''in'', ''butter'', ''sauce'']] [1 / 2, 1 / 2])
           (3033 / 10000) (1 / 10000)"
proof -
  have "\<bar>exp (- 1 / 2) * sqrt (1 / 10) - 1918 / 10000\<bar> \<le> (1 / 10000 :: real)"
    using smooth_value_bounds by linarith
  moreover have "\<bar>exp (- 1 / 2) / 2 - 3033 / 10000\<bar> \<le> (1 / 10000 :: real)"
    using exp_minus_half_bounds by linarith
  ultimately show ?thesis
    by (simp only: artichoke_Smooth [OF assms] artichoke_Compute [OF assms] approximately_def
        sum.case float64.case simp_thms)
qed

theorem smooth_worked_example_witness:
  "valid_sched insertion_sched \<and>
   approximately
     (Smooth sampleLower insertion_sched [''artichokes'', ''with'', ''the'', ''butter'']
        [[''hearts'', ''of'', ''artichoke'', ''in'', ''butter'', ''sauce'']] [1 / 2, 1 / 2])
     (1918 / 10000) (1 / 10000)"
proof -
  have v: "valid_sched insertion_sched"
    by (simp add: valid_sched_def valid_order_def insertion_order_def insertion_sched_def)
  from smooth_worked_example [OF v, of sampleLower] v show ?thesis by blast
qed

text \<open>
  The score of \<^verbatim>\<open>Smooth\<close> on this input is not within 0.01 of 0.3033.
\<close>

theorem smooth_worked_example_counterexample:
  "\<not> approximately
     (Smooth sampleLower insertion_sched [''artichokes'', ''with'', ''the'', ''butter'']
        [[''hearts'', ''of'', ''artichoke'', ''in'', ''butter'', ''sauce'']] [1 / 2, 1 / 2])
     (3033 / 10000) (1 / 100)"
proof -
  have "\<not> \<bar>exp (- 1 / 2) * sqrt (1 / 10) - 3033 / 10000\<bar> \<le> (1 / 100 :: real)"
    using smooth_value_bounds by linarith
  then show ?thesis
    by (simp only: artichoke_Smooth [OF valid_insertion_sched] approximately_def
        sum.case float64.case simp_thms)
qed

text \<open>
  C6. For the empty candidate \<^verbatim>\<open>Compute\<close> and \<^verbatim>\<open>Smooth\<close> return 0, for all
  references and weights: the overlap count is 0, so the program returns before the
  brevity penalty and its division by the candidate length.
\<close>

theorem empty_candidate:
  "Compute u sched [] references weights = Inr (Fin 0) \<and>
   Smooth u sched [] references weights = Inr (Fin 0) \<and>
   snd (logSum weights (precisions sched [] (map (map (ToLower u)) references)
          (length weights) smoothing)) = 0"
proof -
  have ps: "\<forall>i<length weights. replicate (length weights) (0::real) ! i \<le> 0"
    by simp
  show ?thesis
    by (simp add: Compute_def Smooth_def computeBleu_scoreOf precisions_empty
        scoreOf_no_overlap [OF ps] logSum_no_overlap [OF ps])
qed

text \<open>
  C7. \<^verbatim>\<open>Compute\<close> and \<^verbatim>\<open>Smooth\<close> give the same score on the inputs and on the
  lower-cased inputs; so for \<open>Cat Mat\<close> against \<open>cat on the mat\<close>. Lower-casing twice
  is lower-casing once: the ASCII path of \<^verbatim>\<open>strings.ToLower\<close> is so by its code, the
  Unicode path is taken to be so.
\<close>

theorem lowercase_invariant:
  assumes "valid_sched sched" and "valid_sched sched'"
    and "\<forall>s. ToLower u (ToLower u s) = ToLower u s"
  shows "Compute u sched candidate references weights =
           Compute u sched' (map (ToLower u) candidate) (map (map (ToLower u)) references) weights \<and>
         Smooth u sched candidate references weights =
           Smooth u sched' (map (ToLower u) candidate) (map (map (ToLower u)) references) weights \<and>
         Compute u sched [''Cat'', ''Mat''] [[''cat'', ''on'', ''the'', ''mat'']] [1 / 2, 1 / 2] =
           Compute u sched' [''cat'', ''mat''] [[''cat'', ''on'', ''the'', ''mat'']] [1 / 2, 1 / 2]"
proof -
  have eq: "computeBleu u sched c rs w sm =
      computeBleu u sched' (map (ToLower u) c) (map (map (ToLower u)) rs) w sm"
    for c rs w sm
    using computeBleu_order_irrelevant [OF assms(1,2)]
    by (simp add: computeBleu_lowered [OF assms(3)])
  have "map (map toLowerByte) [''Cat'', ''Mat''] = [''cat'', ''mat'']"
    by code_simp
  then have lc: "map (ToLower u) [''Cat'', ''Mat''] = [''cat'', ''mat'']"
    by (simp add: ToLower_def isASCII_def)
  have lr: "map (map (ToLower u)) [[''cat'', ''on'', ''the'', ''mat'']] =
      [[''cat'', ''on'', ''the'', ''mat'']]"
    by (simp add: ToLower_def isASCII_def toLowerByte_def)
  from eq [of "[''Cat'', ''Mat'']" "[[''cat'', ''on'', ''the'', ''mat'']]" "[1 / 2, 1 / 2]" False]
  have "Compute u sched [''Cat'', ''Mat''] [[''cat'', ''on'', ''the'', ''mat'']] [1 / 2, 1 / 2] =
           Compute u sched' [''cat'', ''mat''] [[''cat'', ''on'', ''the'', ''mat'']] [1 / 2, 1 / 2]"
    by (simp only: Compute_def lc lr)
  then show ?thesis
    using eq by (simp add: Compute_def Smooth_def)
qed

theorem lowercase_invariant_witness:
  "valid_sched (\<lambda>i. insertion_order) \<and> valid_sched (\<lambda>i. reverse_order) \<and>
   map (ToLower sampleLower) [[CHR 0xC3, CHR 0x89], ''CAT''] = [[CHR 0xC3, CHR 0xA9], ''cat''] \<and>
   Smooth sampleLower (\<lambda>i. insertion_order) [[CHR 0xC3, CHR 0x89], ''CAT'']
       [[[CHR 0xC3, CHR 0xA9], ''Cat'', ''sat'']] [1 / 2, 1 / 2] =
     Smooth sampleLower (\<lambda>i. reverse_order) [[CHR 0xC3, CHR 0xA9], ''cat'']
       [[[CHR 0xC3, CHR 0xA9], ''cat'', ''sat'']] [1 / 2, 1 / 2]"
proof -
  have v: "valid_sched (\<lambda>i. insertion_order)"
    by (simp add: valid_sched_def valid_order_def insertion_order_def)
  have v': "valid_sched (\<lambda>i. reverse_order)"
    by (simp add: valid_sched_def valid_order_def reverse_order_def)
  have i: "\<forall>s. ToLower sampleLower (ToLower sampleLower s) = ToLower sampleLower s"
    by (simp add: ToLower_sampleLower_idem)
  have lc: "map (ToLower sampleLower) [[CHR 0xC3, CHR 0x89], ''CAT''] = [[CHR 0xC3, CHR 0xA9], ''cat'']"
    by code_simp
  have lr: "map (map (ToLower sampleLower)) [[[CHR 0xC3, CHR 0xA9], ''Cat'', ''sat'']] =
      [[[CHR 0xC3, CHR 0xA9], ''cat'', ''sat'']]"
    by code_simp
  from lowercase_invariant [OF v v' i, of "[[CHR 0xC3, CHR 0x89], ''CAT'']"
      "[[[CHR 0xC3, CHR 0xA9], ''Cat'', ''sat'']]" "[1 / 2, 1 / 2]"]
  show ?thesis using v v' lc by (simp only: lc lr)
qed

text \<open>
  C9. \<^verbatim>\<open>Compute\<close> and \<^verbatim>\<open>Smooth\<close> are deterministic: the score is the same under
  any two orders of visiting the maps; and, lower-casing twice being lower-casing once,
  a second call on the slices as the first call left them (lower-cased in place) returns
  the same score again.
\<close>

theorem deterministic:
  assumes "valid_sched sched" and "valid_sched sched'"
  shows "Compute u sched candidate references weights =
           Compute u sched' candidate references weights \<and>
         Smooth u sched candidate references weights =
           Smooth u sched' candidate references weights \<and>
         ((\<forall>s. ToLower u (ToLower u s) = ToLower u s) \<longrightarrow>
            Compute u sched' (fst (lowered u (candidate, references)))
                (snd (lowered u (candidate, references))) weights =
              Compute u sched candidate references weights \<and>
            Smooth u sched' (fst (lowered u (candidate, references)))
                (snd (lowered u (candidate, references))) weights =
              Smooth u sched candidate references weights)"
  using computeBleu_order_irrelevant [OF assms]
  by (simp add: Compute_def Smooth_def lowered_def computeBleu_lowered)

theorem deterministic_witness:
  "valid_sched (\<lambda>i. insertion_order) \<and> valid_sched (\<lambda>i. reverse_order) \<and>
   Compute sampleLower (\<lambda>i. insertion_order) [''the'', ''Cat'', ''the''] [[''the'', ''cat'']]
       [1 / 2, 1 / 2] =
     Compute sampleLower (\<lambda>i. reverse_order) [''the'', ''Cat'', ''the''] [[''the'', ''cat'']]
       [1 / 2, 1 / 2] \<and>
   Compute sampleLower (\<lambda>i. reverse_order)
       (fst (lowered sampleLower ([''the'', ''Cat'', ''the''], [[''the'', ''cat'']])))
       (snd (lowered sampleLower ([''the'', ''Cat'', ''the''], [[''the'', ''cat'']])))
       [1 / 2, 1 / 2] =
     Compute sampleLower (\<lambda>i. insertion_order) [''the'', ''Cat'', ''the''] [[''the'', ''cat'']]
       [1 / 2, 1 / 2]"
proof -
  have v: "valid_sched (\<lambda>i. insertion_order)"
    by (simp add: valid_sched_def valid_order_def insertion_order_def)
  have v': "valid_sched (\<lambda>i. reverse_order)"
    by (simp add: valid_sched_def valid_order_def reverse_order_def)
  have i: "\<forall>s. ToLower sampleLower (ToLower sampleLower s) = ToLower sampleLower s"
    by (simp add: ToLower_sampleLower_idem)
  from deterministic [OF v v', of sampleLower "[''the'', ''Cat'', ''the'']" "[[''the'', ''cat'']]"
      "[1 / 2, 1 / 2]"] v v' i
  show ?thesis by blast
qed

text \<open>
  C10. With a candidate and weights that are not empty and no reference at all,
  \<^verbatim>\<open>Smooth\<close> gets a positive precision of order 1, so the overlap count is not 0,
  \<^verbatim>\<open>brevityPenalty\<close> is called and reads index 0 of the empty array of reference
  lengths: the call panics.
\<close>

theorem smooth_no_references_panics:
  assumes "valid_sched sched" and "candidate \<noteq> []" and "weights \<noteq> []"
  shows "Smooth u sched candidate [] weights = Inl IndexOutOfRange \<and>
         snd (logSum weights (precisions sched (map (ToLower u) candidate) [] (length weights) True))
           \<noteq> 0 \<and>
         brevityPenalty (map (ToLower u) candidate) [] = Inl IndexOutOfRange"
proof -
  let ?c = "map (ToLower u) candidate"
  let ?ps = "closedPrecisions ?c [] (length weights) True"
  have w: "0 < length weights" using assms(3) by simp
  have "getNgrams ?c (0 + 1) \<noteq> []"
    using assms(2) by (intro getNgrams_nonempty) (simp add: Suc_le_eq)
  then have "?ps ! 0 = keyPrecision ?c [] 1 True"
    using w by (simp add: closedPrecisions_def)
  then have "?ps ! 0 > 0" by (simp add: keyPrecision_smooth_pos)
  with w have ov: "snd (logSum weights ?ps) \<noteq> 0" by (rule logSum_overlap)
  then show ?thesis
    by (simp add: Smooth_def computeBleu_closed [OF assms(1)] precisions_closed [OF assms(1)]
        scoreOf_def brevityPenalty_Nil case_prod_beta)
qed

theorem smooth_no_references_panics_witness:
  "valid_sched (\<lambda>i. insertion_order) \<and> [''cat'', ''mat''] \<noteq> [] \<and> [1 / 2 :: real, 1 / 2] \<noteq> [] \<and>
   Smooth sampleLower (\<lambda>i. insertion_order) [''cat'', ''mat''] [] [1 / 2, 1 / 2] =
     Inl IndexOutOfRange"
proof -
  have v: "valid_sched (\<lambda>i. insertion_order)"
    by (simp add: valid_sched_def valid_order_def insertion_order_def)
  have c: "[''cat'', ''mat''] \<noteq> []" and w: "[1 / 2 :: real, 1 / 2] \<noteq> []"
    by simp_all
  from smooth_no_references_panics [OF v c w, of sampleLower] v c w
  show ?thesis by blast
qed

end
